theory Spec2Isabelle
  imports Main "HOL-Library.AList"
begin

section \<open>JavaScript values\<close>

text \<open>
  The scripts exchange JSON texts.  A value that \<^verbatim>\<open>JSON.parse\<close> returns is a \<open>json\<close>;
  a property read yields a \<open>json option\<close>, where \<open>None\<close> is JavaScript's
  \<^verbatim>\<open>undefined\<close>.  An object is the list of its own properties in property order;
  \<^verbatim>\<open>JSON.parse\<close> yields no object with two properties of the same name.

  A number is an integer (\<open>JNum\<close>: time stamps are milliseconds, counts are
  naturals; it stands for a number that prints in digits, below \<open>10\<^sup>2\<^sup>1\<close> in absolute
  value), or one of the values that are not finite (\<open>JNonFinite\<close>): \<^verbatim>\<open>JSON.parse\<close>
  reads a numeral beyond the range of a double, such as \<^verbatim>\<open>1e400\<close>, as \<^verbatim>\<open>Infinity\<close>, and
  arithmetic on values that are not numbers yields \<^verbatim>\<open>NaN\<close>.  A number with a
  fractional part has no representation here.

  A \<open>char\<close> stands for a UTF-16 code unit below U+0100, so a \<open>string\<close>
  is a JavaScript string over Latin-1; \<open>length\<close> counts code units, as
  \<^verbatim>\<open>String.prototype.slice\<close> does, and \<open>byteLength\<close> below counts the bytes of its
  UTF-8 encoding, as \<^verbatim>\<open>fs.statSync(...).size\<close> does.
\<close>

datatype nonfinite = PosInfinity | NegInfinity | NaN

datatype json =
    JNull
  | JBool bool
  | JNum int
  | JNonFinite nonfinite
  | JStr string
  | JArr "json list"
  | JObj "(string \<times> json) list"

datatype error = SyntaxError | TypeError | IOError

text \<open>
  A step that may throw returns an \<open>error + 'a\<close>, \<open>Inl\<close> being the exception;
  \<open>and_then\<close> runs the next step on the result of the first unless that threw.
\<close>

definition and_then :: "error + 'a \<Rightarrow> ('a \<Rightarrow> error + 'b) \<Rightarrow> error + 'b" where
  "and_then r f = (case r of Inl e \<Rightarrow> Inl e | Inr x \<Rightarrow> f x)"

text \<open>Truthiness, as tested by \<^verbatim>\<open>!x\<close>, \<^verbatim>\<open>x || y\<close> and \<^verbatim>\<open>x && y\<close>.\<close>

fun truthy :: "json \<Rightarrow> bool" where
  "truthy JNull = False"
| "truthy (JBool b) = b"
| "truthy (JNum n) = (n \<noteq> 0)"
| "truthy (JNonFinite x) = (x \<noteq> NaN)"
| "truthy (JStr s) = (s \<noteq> [])"
| "truthy (JArr xs) = True"
| "truthy (JObj kvs) = True"

fun truthy_prop :: "json option \<Rightarrow> bool" where
  "truthy_prop None = False"
| "truthy_prop (Some v) = truthy v"

fun typeof :: "json option \<Rightarrow> string" where
  "typeof None = ''undefined''"
| "typeof (Some JNull) = ''object''"
| "typeof (Some (JBool b)) = ''boolean''"
| "typeof (Some (JNum n)) = ''number''"
| "typeof (Some (JNonFinite x)) = ''number''"
| "typeof (Some (JStr s)) = ''string''"
| "typeof (Some (JArr xs)) = ''object''"
| "typeof (Some (JObj kvs)) = ''object''"

text \<open>
  \<open>get_prop v k\<close> is the read \<^verbatim>\<open>v.k\<close> on a value \<open>v\<close> other than \<^verbatim>\<open>null\<close>, for the property
  names the scripts read (\<^verbatim>\<open>location\<close>, \<^verbatim>\<open>message\<close>, \<^verbatim>\<open>hypothesisId\<close>, \<^verbatim>\<open>timestamp\<close>,
  \<^verbatim>\<open>level\<close>, \<^verbatim>\<open>data\<close>): none of them is a property of a primitive, of an array or of
  \<^verbatim>\<open>Object.prototype\<close>.  Reading a property of \<^verbatim>\<open>null\<close> throws; the callers test for
  \<open>JNull\<close> first.
\<close>

fun get_prop :: "json \<Rightarrow> string \<Rightarrow> json option" where
  "get_prop (JObj kvs) k = map_of kvs k"
| "get_prop v k = None"

text \<open>
  The assignment \<^verbatim>\<open>v.k = x\<close> in a module (strict mode): an object gets or updates
  the property, an array gets a named property that \<^verbatim>\<open>JSON.stringify\<close> never prints,
  and any other value makes the assignment throw.
\<close>

fun set_prop :: "json \<Rightarrow> string \<Rightarrow> json \<Rightarrow> error + json" where
  "set_prop (JObj kvs) k x = Inr (JObj (AList.update k x kvs))"
| "set_prop (JArr xs) k x = Inr (JArr xs)"
| "set_prop v k x = Inl TypeError"

subsection \<open>\<^verbatim>\<open>JSON.stringify\<close> with one argument\<close>

definition digit_char :: "nat \<Rightarrow> char" where
  "digit_char d = ''0123456789'' ! d"

fun digits :: "nat \<Rightarrow> string" where
  "digits n = (if n < 10 then [digit_char n] else digits (n div 10) @ [digit_char (n mod 10)])"

declare digits.simps [simp del]

definition show_int :: "int \<Rightarrow> string" where
  "show_int i = (if i < 0 then CHR ''-'' # digits (nat (- i)) else digits (nat i))"

definition hex_char :: "nat \<Rightarrow> char" where
  "hex_char d = ''0123456789abcdef'' ! d"

definition escape_char :: "char \<Rightarrow> string" where
  "escape_char c =
     (if c = CHR 0x22 then [CHR 0x5C, CHR 0x22]
      else if c = CHR 0x5C then [CHR 0x5C, CHR 0x5C]
      else if c = CHR 0x08 then [CHR 0x5C, CHR ''b'']
      else if c = CHR 0x0C then [CHR 0x5C, CHR ''f'']
      else if c = CHR 0x0A then [CHR 0x5C, CHR ''n'']
      else if c = CHR 0x0D then [CHR 0x5C, CHR ''r'']
      else if c = CHR 0x09 then [CHR 0x5C, CHR ''t'']
      else if (of_char c :: nat) < 32
        then [CHR 0x5C, CHR ''u'', CHR ''0'', CHR ''0'',
              hex_char (of_char c div 16), hex_char (of_char c mod 16)]
      else [c])"

definition quote :: "string \<Rightarrow> string" where
  "quote s = CHR 0x22 # concat (map escape_char s) @ [CHR 0x22]"

fun join :: "string \<Rightarrow> string list \<Rightarrow> string" where
  "join sep [] = []"
| "join sep [x] = x"
| "join sep (x # y # ys) = x @ sep @ join sep (y # ys)"

text \<open>A number that is not finite is written as \<^verbatim>\<open>null\<close>.\<close>

fun JSON_stringify :: "json \<Rightarrow> string" where
  "JSON_stringify JNull = ''null''"
| "JSON_stringify (JBool b) = (if b then ''true'' else ''false'')"
| "JSON_stringify (JNum n) = show_int n"
| "JSON_stringify (JNonFinite x) = ''null''"
| "JSON_stringify (JStr s) = quote s"
| "JSON_stringify (JArr xs) = ''['' @ join '','' (map JSON_stringify xs) @ '']''"
| "JSON_stringify (JObj kvs) =
     ''{'' @ join '','' (map (\<lambda>(k, v). quote k @ '':'' @ JSON_stringify v) kvs) @ ''}''"

text \<open>
  What a value has become once it was written and read again: every number in it
  that is not finite is \<^verbatim>\<open>null\<close>.  A value without such a number is unchanged.
\<close>

fun nullify :: "json \<Rightarrow> json" where
  "nullify (JNonFinite x) = JNull"
| "nullify (JArr xs) = JArr (map nullify xs)"
| "nullify (JObj kvs) = JObj (map (\<lambda>(k, v). (k, nullify v)) kvs)"
| "nullify v = v"

fun finite_numbers :: "json \<Rightarrow> bool" where
  "finite_numbers (JNonFinite x) = False"
| "finite_numbers (JArr xs) = (\<forall>x\<in>set xs. finite_numbers x)"
| "finite_numbers (JObj kvs) = (\<forall>(k, v)\<in>set kvs. finite_numbers v)"
| "finite_numbers v = True"

subsection \<open>Reading a serialised value\<close>

text \<open>
  \<open>read_json\<close> is \<^verbatim>\<open>JSON.parse\<close> on the texts that \<^verbatim>\<open>JSON.stringify\<close> writes for the
  values above: no white space between the tokens, numbers in digits without
  fraction or exponent, in a string the escapes of JSON with \<^verbatim>\<open>\u\<close> escapes below
  U+0100, and in an object no key twice.  It is applied to such texts only; on a
  text of another form it need not agree with \<^verbatim>\<open>JSON.parse\<close> (it refuses white
  space, fractions and exponents, and it keeps a key that occurs twice).  The
  first argument of \<open>read_value\<close> bounds the depth of the recursion; the length
  of the text is enough.
\<close>

definition is_digit :: "char \<Rightarrow> bool" where
  "is_digit c \<longleftrightarrow> c \<in> set ''0123456789''"

definition digit_val :: "char \<Rightarrow> nat" where
  "digit_val c = of_char c - 48"

fun read_digits :: "nat \<Rightarrow> string \<Rightarrow> nat \<times> string" where
  "read_digits acc [] = (acc, [])"
| "read_digits acc (c # cs) =
     (if is_digit c then read_digits (acc * 10 + digit_val c) cs else (acc, c # cs))"

text \<open>The integer part of a JSON number: a single \<^verbatim>\<open>0\<close>, or digits that do not start with \<^verbatim>\<open>0\<close>.\<close>

definition read_natural :: "string \<Rightarrow> (nat \<times> string) option" where
  "read_natural s =
     (case s of
        [] \<Rightarrow> None
      | c # cs \<Rightarrow>
          if c = CHR ''0'' then Some (0, cs)
          else if is_digit c then Some (read_digits 0 s)
          else None)"

definition read_number :: "string \<Rightarrow> (json \<times> string) option" where
  "read_number s =
     (case s of
        [] \<Rightarrow> None
      | c # cs \<Rightarrow>
          if c = CHR ''-''
          then (case read_natural cs of None \<Rightarrow> None | Some (n, r) \<Rightarrow> Some (JNum (- int n), r))
          else (case read_natural s of None \<Rightarrow> None | Some (n, r) \<Rightarrow> Some (JNum (int n), r)))"

text \<open>The value of a hexadecimal digit, in either case.\<close>

definition hex_val :: "char \<Rightarrow> nat option" where
  "hex_val c =
     (if 48 \<le> (of_char c :: nat) \<and> (of_char c :: nat) \<le> 57 then Some (of_char c - 48)
      else if 97 \<le> (of_char c :: nat) \<and> (of_char c :: nat) \<le> 102 then Some (of_char c - 87)
      else if 65 \<le> (of_char c :: nat) \<and> (of_char c :: nat) \<le> 70 then Some (of_char c - 55)
      else None)"

definition unescape :: "char \<Rightarrow> char option" where
  "unescape d =
     (if d = CHR 0x22 then Some (CHR 0x22)
      else if d = CHR 0x5C then Some (CHR 0x5C)
      else if d = CHR ''/'' then Some (CHR ''/'')
      else if d = CHR ''b'' then Some (CHR 0x08)
      else if d = CHR ''f'' then Some (CHR 0x0C)
      else if d = CHR ''n'' then Some (CHR 0x0A)
      else if d = CHR ''r'' then Some (CHR 0x0D)
      else if d = CHR ''t'' then Some (CHR 0x09)
      else None)"

text \<open>The characters of a string up to its closing quote, the opening quote being read.\<close>

fun read_chars :: "string \<Rightarrow> (string \<times> string) option" where
  "read_chars [] = None"
| "read_chars (c # cs) =
     (if c = CHR 0x22 then Some ([], cs)
      else if c = CHR 0x5C then
        (case cs of
           [] \<Rightarrow> None
         | d # ds \<Rightarrow>
             if d = CHR ''u'' then
               (case ds of
                  a # b # x # y # r \<Rightarrow>
                    (case (hex_val a, hex_val b, hex_val x, hex_val y) of
                       (Some h3, Some h2, Some h1, Some h0) \<Rightarrow>
                         if h3 = 0 \<and> h2 = 0 then
                           (case read_chars r of
                              None \<Rightarrow> None
                            | Some (s, r') \<Rightarrow> Some (char_of (16 * h1 + h0) # s, r'))
                         else None
                     | _ \<Rightarrow> None)
                | _ \<Rightarrow> None)
             else
               (case unescape d of
                  None \<Rightarrow> None
                | Some ch \<Rightarrow>
                    (case read_chars ds of
                       None \<Rightarrow> None
                     | Some (s, r') \<Rightarrow> Some (ch # s, r'))))
      else if (of_char c :: nat) < 32 then None
      else (case read_chars cs of None \<Rightarrow> None | Some (s, r') \<Rightarrow> Some (c # s, r')))"

text \<open>
  A value and the text that follows it; the elements of an array after its
  opening bracket; the members of an object after its opening brace.
\<close>

fun read_value :: "nat \<Rightarrow> string \<Rightarrow> (json \<times> string) option"
  and read_elements :: "nat \<Rightarrow> string \<Rightarrow> (json list \<times> string) option"
  and read_members :: "nat \<Rightarrow> string \<Rightarrow> ((string \<times> json) list \<times> string) option" where
  "read_value 0 s = None"
| "read_value (Suc n) [] = None"
| "read_value (Suc n) (c # cs) =
     (if c = CHR ''n'' then (if take 3 cs = ''ull'' then Some (JNull, drop 3 cs) else None)
      else if c = CHR ''t'' then (if take 3 cs = ''rue'' then Some (JBool True, drop 3 cs) else None)
      else if c = CHR ''f''
        then (if take 4 cs = ''alse'' then Some (JBool False, drop 4 cs) else None)
      else if c = CHR 0x22 then
        (case read_chars cs of None \<Rightarrow> None | Some (str, r) \<Rightarrow> Some (JStr str, r))
      else if c = CHR ''['' then
        (if take 1 cs = '']'' then Some (JArr [], drop 1 cs)
         else (case read_elements n cs of None \<Rightarrow> None | Some (xs, r) \<Rightarrow> Some (JArr xs, r)))
      else if c = CHR ''{'' then
        (if take 1 cs = ''}'' then Some (JObj [], drop 1 cs)
         else (case read_members n cs of None \<Rightarrow> None | Some (kvs, r) \<Rightarrow> Some (JObj kvs, r)))
      else read_number (c # cs))"
| "read_elements 0 s = None"
| "read_elements (Suc n) s =
     (case read_value n s of
        None \<Rightarrow> None
      | Some (v, r) \<Rightarrow>
          if take 1 r = '','' then
            (case read_elements n (drop 1 r) of
               None \<Rightarrow> None
             | Some (vs, r') \<Rightarrow> Some (v # vs, r'))
          else if take 1 r = '']'' then Some ([v], drop 1 r)
          else None)"
| "read_members 0 s = None"
| "read_members (Suc n) s =
     (if take 1 s = [CHR 0x22] then
        (case read_chars (drop 1 s) of
           None \<Rightarrow> None
         | Some (k, r) \<Rightarrow>
             if take 1 r = '':'' then
               (case read_value n (drop 1 r) of
                  None \<Rightarrow> None
                | Some (v, r') \<Rightarrow>
                    if take 1 r' = '','' then
                      (case read_members n (drop 1 r') of
                         None \<Rightarrow> None
                       | Some (kvs, r'') \<Rightarrow> Some ((k, v) # kvs, r''))
                    else if take 1 r' = ''}'' then Some ([(k, v)], drop 1 r')
                    else None)
             else None)
      else None)"

text \<open>A depth that is enough to read the text of a value.\<close>

fun weight :: "json \<Rightarrow> nat" where
  "weight (JArr xs) = Suc (sum_list (map (\<lambda>x. Suc (weight x)) xs))"
| "weight (JObj kvs) = Suc (sum_list (map (\<lambda>(k, v). Suc (weight v)) kvs))"
| "weight v = 1"

definition read_json :: "string \<Rightarrow> json option" where
  "read_json s =
     (case read_value (Suc (length s)) s of
        Some (v, []) \<Rightarrow> Some v
      | _ \<Rightarrow> None)"

subsection \<open>Conversion to a primitive value and to a property key\<close>

text \<open>
  A value used as a property name, spliced into a template or compared with \<^verbatim>\<open><\<close>
  is first converted to a primitive value.  An object converts through
  \<^verbatim>\<open>Object.prototype.toString\<close>, unless it has a property \<^verbatim>\<open>toString\<close> of its own: a
  value that \<^verbatim>\<open>JSON.parse\<close> returned is never a function, so the conversion finds no
  method that yields a primitive and throws a \<^verbatim>\<open>TypeError\<close>.  An array converts
  through \<^verbatim>\<open>join\<close>, which converts its elements.  \<open>convertible\<close> tells whether the
  conversion returns, \<open>toText\<close> is the string it leads to.
\<close>

fun convertible :: "json \<Rightarrow> bool" where
  "convertible (JObj kvs) = (map_of kvs ''toString'' = None)"
| "convertible (JArr xs) = (\<forall>x\<in>set xs. convertible x)"
| "convertible v = True"

fun toText :: "json \<Rightarrow> string" where
  "toText JNull = ''null''"
| "toText (JBool b) = (if b then ''true'' else ''false'')"
| "toText (JNum n) = show_int n"
| "toText (JNonFinite x) =
     (case x of PosInfinity \<Rightarrow> ''Infinity'' | NegInfinity \<Rightarrow> ''-Infinity'' | NaN \<Rightarrow> ''NaN'')"
| "toText (JStr s) = s"
| "toText (JArr xs) = join '','' (map (\<lambda>x. if x = JNull then [] else toText x) xs)"
| "toText (JObj kvs) = ''[object Object]''"

definition toKey :: "json \<Rightarrow> error + string" where
  "toKey v = (if convertible v then Inr (toText v) else Inl TypeError)"

fun key_of :: "json option \<Rightarrow> error + string" where
  "key_of None = Inr ''undefined''"
| "key_of (Some v) = toKey v"

fun convertible_prop :: "json option \<Rightarrow> bool" where
  "convertible_prop None = True"
| "convertible_prop (Some v) = convertible v"

fun primitive_of :: "json \<Rightarrow> json" where
  "primitive_of (JArr xs) = JStr (toText (JArr xs))"
| "primitive_of (JObj kvs) = JStr (toText (JObj kvs))"
| "primitive_of v = v"

definition ToPrimitive :: "json \<Rightarrow> error + json" where
  "ToPrimitive v = (if convertible v then Inr (primitive_of v) else Inl TypeError)"

subsection \<open>The operators \<^verbatim>\<open><\<close> and \<^verbatim>\<open>-\<close>\<close>

text \<open>
  Both operators convert their operands to primitive values first.  Two strings
  are compared code unit by code unit; two integers are compared as such, and
  subtracted exactly when they and their difference are at most \<open>2\<^sup>5\<^sup>3\<close> in absolute
  value.  Every other case goes through the conversion of strings to numbers and
  through floating-point arithmetic, which are left to the platform: an \<open>arith\<close>
  says what \<^verbatim>\<open>x < y\<close> and \<^verbatim>\<open>x - y\<close> are for two primitive values.
\<close>

record arith =
  number_less :: "json \<Rightarrow> json \<Rightarrow> bool"
  number_minus :: "json \<Rightarrow> json \<Rightarrow> json"

fun str_less :: "string \<Rightarrow> string \<Rightarrow> bool" where
  "str_less [] [] = False"
| "str_less [] (y # ys) = True"
| "str_less (x # xs) [] = False"
| "str_less (x # xs) (y # ys) =
     ((of_char x :: nat) < of_char y \<or> x = y \<and> str_less xs ys)"

fun less_primitive :: "arith \<Rightarrow> json \<Rightarrow> json \<Rightarrow> bool" where
  "less_primitive ar (JNum a) (JNum b) = (a < b)"
| "less_primitive ar (JStr s) (JStr t) = str_less s t"
| "less_primitive ar p q = number_less ar p q"

definition safe :: "int \<Rightarrow> bool" where
  "safe n \<longleftrightarrow> \<bar>n\<bar> \<le> 2 ^ 53"

fun minus_primitive :: "arith \<Rightarrow> json \<Rightarrow> json \<Rightarrow> json" where
  "minus_primitive ar (JNum a) (JNum b) =
     (if safe a \<and> safe b \<and> safe (a - b) then JNum (a - b)
      else number_minus ar (JNum a) (JNum b))"
| "minus_primitive ar p q = number_minus ar p q"

definition js_less :: "arith \<Rightarrow> json \<Rightarrow> json \<Rightarrow> error + bool" where
  "js_less ar x y =
     and_then (ToPrimitive x) (\<lambda>p.
     and_then (ToPrimitive y) (\<lambda>q. Inr (less_primitive ar p q)))"

definition js_minus :: "arith \<Rightarrow> json \<Rightarrow> json \<Rightarrow> error + json" where
  "js_minus ar x y =
     and_then (ToPrimitive x) (\<lambda>p.
     and_then (ToPrimitive y) (\<lambda>q. Inr (minus_primitive ar p q)))"

text \<open>
  An \<open>arith\<close> to run the scripts with on concrete values of which only integers
  are compared and subtracted: what it says is never consulted there.  (It answers
  as JavaScript does when an operand converts to \<^verbatim>\<open>NaN\<close>.)
\<close>

definition nan_arith :: arith where
  "nan_arith = \<lparr>number_less = (\<lambda>x y. False), number_minus = (\<lambda>x y. JNonFinite NaN)\<rparr>"

subsection \<open>String methods\<close>

text \<open>
  \<^verbatim>\<open>s.split('\n')\<close>: the pieces of \<open>s\<close> between line feeds; there is always at
  least one piece, and the last one is what follows the last line feed.
\<close>

fun split_nl :: "string \<Rightarrow> string list" where
  "split_nl [] = [[]]"
| "split_nl (c # cs) =
     (if c = CHR 0x0A then [] # split_nl cs
      else (case split_nl cs of [] \<Rightarrow> [[c]] | l # ls \<Rightarrow> (c # l) # ls))"


text \<open>\<^verbatim>\<open>s.trim()\<close> strips white space and line terminators (those below U+0100).\<close>

definition is_space :: "char \<Rightarrow> bool" where
  "is_space c \<longleftrightarrow>
     c \<in> set [CHR 0x09, CHR 0x0A, CHR 0x0B, CHR 0x0C, CHR 0x0D, CHR 0x20, CHR 0xA0]"

definition trim :: "string \<Rightarrow> string" where
  "trim s = rev (dropWhile is_space (rev (dropWhile is_space s)))"

section \<open>The collector (scripts/collector.mjs)\<close>

text \<open>
  The Entry Store is the file \<^verbatim>\<open>.debug/debug.log\<close>: \<open>None\<close> when the file is absent,
  \<open>Some c\<close> when it holds the text \<open>c\<close>.

  What the server takes from its platform is gathered in an \<open>env\<close>:
  \<^verbatim>\<open>JSON.parse\<close> (\<open>None\<close> when it throws), the reading of \<^verbatim>\<open>Date.now()\<close>, whether
  \<^verbatim>\<open>appendFileSync\<close> fails with an I/O error (nothing is written then), and the
  process id.
\<close>

record env =
  JSON_parse :: "string \<Rightarrow> json option"
  Date_now :: int
  append_fails :: bool
  pid :: int

record request =
  http_method :: string
  url_path :: "string option"
  body :: string

datatype payload = NoBody | TextBody string | JsonBody json

record response =
  status :: nat
  payload :: payload

text \<open>
  \<^verbatim>\<open>e.message\<close>.  The text of an I/O error depends on its cause and is abbreviated.
\<close>

definition message :: "error \<Rightarrow> string" where
  "message e =
     (case e of SyntaxError \<Rightarrow> ''Invalid JSON'' | TypeError \<Rightarrow> ''TypeError''
      | IOError \<Rightarrow> ''I/O error'')"

definition parseBody :: "(string \<Rightarrow> json option) \<Rightarrow> string \<Rightarrow> error + json" where
  "parseBody parse b =
     (if b \<noteq> [] then (case parse b of None \<Rightarrow> Inl SyntaxError | Some v \<Rightarrow> Inr v)
      else Inr JNull)"

definition validateEntry :: "json \<Rightarrow> string option" where
  "validateEntry entry =
     (if \<not> truthy entry \<or> typeof (Some entry) \<noteq> ''object''
        then Some ''Entry must be a JSON object''
      else if \<not> truthy_prop (get_prop entry ''location'')
              \<or> typeof (get_prop entry ''location'') \<noteq> ''string''
        then Some ''Missing required field: location''
      else if \<not> truthy_prop (get_prop entry ''message'')
              \<or> typeof (get_prop entry ''message'') \<noteq> ''string''
        then Some ''Missing required field: message''
      else if \<not> truthy_prop (get_prop entry ''hypothesisId'')
              \<or> typeof (get_prop entry ''hypothesisId'') \<noteq> ''string''
        then Some ''Missing required field: hypothesisId''
      else None)"

definition appendFileSync :: "bool \<Rightarrow> string option \<Rightarrow> string \<Rightarrow> error + string option" where
  "appendFileSync fails file s =
     (if fails then Inl IOError
      else Inr (Some (case file of None \<Rightarrow> s | Some c \<Rightarrow> c @ s)))"

text \<open>The entry as \<^verbatim>\<open>writeLogEntry\<close> leaves it before serialising it.\<close>

definition stamp :: "int \<Rightarrow> json \<Rightarrow> error + json" where
  "stamp now entry =
     (if entry = JNull then Inl TypeError
      else if \<not> truthy_prop (get_prop entry ''timestamp'')
        then set_prop entry ''timestamp'' (JNum now)
      else Inr entry)"

definition writeLogEntry :: "env \<Rightarrow> json \<Rightarrow> string option \<Rightarrow> error + string option" where
  "writeLogEntry env entry store =
     (case stamp (Date_now env) entry of
        Inl e \<Rightarrow> Inl e
      | Inr entry' \<Rightarrow>
          appendFileSync (append_fails env) store (JSON_stringify entry' @ [CHR 0x0A]))"

definition sendJson :: "nat \<Rightarrow> json \<Rightarrow> response" where
  "sendJson statusCode d = \<lparr>status = statusCode, payload = JsonBody d\<rparr>"

definition error_reply :: "string \<Rightarrow> json" where
  "error_reply msg = JObj [(''status'', JStr ''error''), (''error'', JStr msg)]"

text \<open>
  \<^verbatim>\<open>handleRequest\<close>.  \<open>url_path req = None\<close> stands for a request target on which
  \<^verbatim>\<open>new URL\<close> throws: the promise is rejected then, which is the \<open>Inl\<close> result.
  The status page is abbreviated to its heading.
\<close>

definition handleRequest ::
  "env \<Rightarrow> request \<Rightarrow> string option \<Rightarrow> error + (response \<times> string option)" where
  "handleRequest env req store =
     (case url_path req of
        None \<Rightarrow> Inl TypeError
      | Some path \<Rightarrow>
         if http_method req = ''OPTIONS'' then Inr (\<lparr>status = 204, payload = NoBody\<rparr>, store)
         else if http_method req = ''GET'' \<and> path = ''/''
           then Inr (\<lparr>status = 200, payload = TextBody ''Debug Log Collector''\<rparr>, store)
         else if http_method req = ''GET'' \<and> path = ''/health''
           then Inr (sendJson 200 (JObj [(''status'', JStr ''ok''), (''pid'', JNum (pid env))]),
                     store)
         else if http_method req = ''POST'' \<and> path = ''/ingest'' then
           (case parseBody (JSON_parse env) (body req) of
              Inl e \<Rightarrow> Inr (sendJson 400 (error_reply (message e)), store)
            | Inr entry \<Rightarrow>
               (case validateEntry entry of
                  Some err \<Rightarrow> Inr (sendJson 400 (error_reply err), store)
                | None \<Rightarrow>
                   (case writeLogEntry env entry store of
                      Inl e \<Rightarrow> Inr (sendJson 400 (error_reply (message e)), store)
                    | Inr store' \<Rightarrow> Inr (sendJson 200 (JObj [(''status'', JStr ''ok'')]), store'))))
         else if path = ''/ingest'' \<or> path = ''/health''
           then Inr (\<lparr>status = 405, payload = TextBody ''Method Not Allowed''\<rparr>, store)
         else Inr (\<lparr>status = 404, payload = TextBody ''Not Found''\<rparr>, store))"

text \<open>
  The listener passed to \<^verbatim>\<open>createServer\<close>: a rejected \<^verbatim>\<open>handleRequest\<close> is answered
  with 500.  The function is total: whatever the request, the server answers and
  goes on with the store it returns.
\<close>

definition server :: "env \<Rightarrow> request \<Rightarrow> string option \<Rightarrow> response \<times> string option" where
  "server env req store =
     (case handleRequest env req store of
        Inl err \<Rightarrow> (sendJson 500 (error_reply ''Internal server error''), store)
      | Inr r \<Rightarrow> r)"

definition ingest :: "string \<Rightarrow> request" where
  "ingest b = \<lparr>http_method = ''POST'', url_path = Some ''/ingest'', body = b\<rparr>"

text \<open>A reader takes an absent store for an empty one.\<close>

definition store_text :: "string option \<Rightarrow> string" where
  "store_text store = (case store of None \<Rightarrow> [] | Some c \<Rightarrow> c)"

subsection \<open>Concrete platforms\<close>

text \<open>
  To run the server on a concrete request, \<^verbatim>\<open>JSON.parse\<close> is restricted to the
  serialisations of a few known values; it rejects every other text.
\<close>

definition parse_known :: "json list \<Rightarrow> string \<Rightarrow> json option" where
  "parse_known vs s = map_of (map (\<lambda>v. (JSON_stringify v, v)) vs) s"

definition platform :: "json list \<Rightarrow> int \<Rightarrow> bool \<Rightarrow> env" where
  "platform vs now fails =
     \<lparr>JSON_parse = parse_known vs, Date_now = now, append_fails = fails, pid = 4242\<rparr>"

definition entry_A :: json where
  "entry_A = JObj [(''location'', JStr ''a.js:f''), (''hypothesisId'', JStr ''A''),
                   (''message'', JStr ''entry''), (''level'', JStr ''error'')]"

definition entry_B :: json where
  "entry_B = JObj [(''location'', JStr ''a.js:f''), (''hypothesisId'', JStr ''B''),
                   (''message'', JStr ''ok'')]"

definition entry_no_message :: json where
  "entry_no_message = JObj [(''location'', JStr ''a.js:f''), (''hypothesisId'', JStr ''A'')]"

definition entry_empty_message :: json where
  "entry_empty_message =
     JObj [(''location'', JStr ''a.js:f''), (''hypothesisId'', JStr ''A''), (''message'', JStr [])]"


definition entry_B_stamped :: json where
  "entry_B_stamped = JObj [(''location'', JStr ''a.js:f''), (''hypothesisId'', JStr ''B''),
                           (''message'', JStr ''ok''), (''timestamp'', JNum 1000)]"

text \<open>
  An entry whose \<^verbatim>\<open>data\<close> is the number that \<^verbatim>\<open>JSON.parse\<close> returns for \<^verbatim>\<open>1e400\<close>, and
  what it has become once written and read again.
\<close>

definition entry_overflow :: json where
  "entry_overflow = JObj [(''location'', JStr ''a.js:f''), (''hypothesisId'', JStr ''A''),
                          (''message'', JStr ''entry''), (''data'', JNonFinite PosInfinity),
                          (''timestamp'', JNum 1000)]"

definition entry_overflow_read :: json where
  "entry_overflow_read = JObj [(''location'', JStr ''a.js:f''), (''hypothesisId'', JStr ''A''),
                               (''message'', JStr ''entry''), (''data'', JNull),
                               (''timestamp'', JNum 1000)]"

text \<open>A request body that holds this entry: its \<^verbatim>\<open>data\<close> is written \<^verbatim>\<open>1e400\<close>.\<close>

definition body_overflow :: string where
  "body_overflow =
     ''{'' @ quote ''location'' @ '':'' @ quote ''a.js:f'' @ '','' @
     quote ''hypothesisId'' @ '':'' @ quote ''A'' @ '','' @
     quote ''message'' @ '':'' @ quote ''entry'' @ '','' @
     quote ''data'' @ '':1e400,'' @ quote ''timestamp'' @ '':1000}''"

text \<open>A platform whose \<^verbatim>\<open>JSON.parse\<close> yields a given value for a given text.\<close>

definition platform_reading :: "string \<Rightarrow> json \<Rightarrow> int \<Rightarrow> env" where
  "platform_reading b v now =
     \<lparr>JSON_parse = (\<lambda>s. if s = b then Some v else None), Date_now = now,
      append_fails = False, pid = 4242\<rparr>"

section \<open>Clearing the store (scripts/clear-logs.mjs)\<close>

text \<open>
  The script returns the store it leaves and its exit status.  \<open>write_fails\<close> tells
  whether \<^verbatim>\<open>writeFileSync\<close> throws; the file is left as it was then.
\<close>

definition clear_logs :: "bool \<Rightarrow> string option \<Rightarrow> string option \<times> nat" where
  "clear_logs write_fails store =
     (case store of
        None \<Rightarrow> (store, 0)
      | Some c \<Rightarrow> if write_fails then (store, 1) else (Some [], 0))"

section \<open>The analyzer (scripts/analyze-logs.mjs)\<close>

subsection \<open>Plain objects used as dictionaries\<close>

text \<open>
  The analysis keeps its tallies in object literals.  A key is the string that
  the value used as the property name converts to (\<open>toKey\<close>).  A read of a
  key that the object does not own falls through to \<^verbatim>\<open>Object.prototype\<close>, whose
  properties are all truthy: \<open>proto_text k\<close> is the string that the inherited
  value of \<open>k\<close> converts to, and \<open>None\<close> when nothing is inherited under \<open>k\<close>.
\<close>

definition proto_text :: "string \<Rightarrow> string option" where
  "proto_text k = map_of
     [(''constructor'', ''function Object() { [native code] }''),
      (''__defineGetter__'', ''function __defineGetter__() { [native code] }''),
      (''__defineSetter__'', ''function __defineSetter__() { [native code] }''),
      (''hasOwnProperty'', ''function hasOwnProperty() { [native code] }''),
      (''__lookupGetter__'', ''function __lookupGetter__() { [native code] }''),
      (''__lookupSetter__'', ''function __lookupSetter__() { [native code] }''),
      (''isPrototypeOf'', ''function isPrototypeOf() { [native code] }''),
      (''propertyIsEnumerable'', ''function propertyIsEnumerable() { [native code] }''),
      (''toString'', ''function toString() { [native code] }''),
      (''valueOf'', ''function valueOf() { [native code] }''),
      (''__proto__'', ''[object Object]''),
      (''toLocaleString'', ''function toLocaleString() { [native code] }'')] k"

text \<open>
  A tally is what \<^verbatim>\<open>(m[k] || 0) + 1\<close> stores: a number, or a text when \<^verbatim>\<open>m[k]\<close> was
  an inherited value or a text already.  Storing under \<^verbatim>\<open>__proto__\<close> a value that is
  not an object changes nothing.
\<close>

datatype tally = Count nat | Text string

definition bump :: "(string \<times> tally) list \<Rightarrow> string \<Rightarrow> (string \<times> tally) list" where
  "bump m k =
     (case map_of m k of
        Some (Count n) \<Rightarrow> AList.update k (Count (n + 1)) m
      | Some (Text s) \<Rightarrow> AList.update k (if s = [] then Count 1 else Text (s @ ''1'')) m
      | None \<Rightarrow>
         (case proto_text k of
            None \<Rightarrow> AList.update k (Count 1) m
          | Some src \<Rightarrow> if k = ''__proto__'' then m else AList.update k (Text (src @ ''1'')) m))"

subsection \<open>The report\<close>

text \<open>
  A time stamp of the report is the \<^verbatim>\<open>timestamp\<close> of an entry, whatever value that
  is, or a reading of the clock; the bounds of the time range start as \<^verbatim>\<open>null\<close>.
  The groups and the tallies are listed in the order in which their keys were
  first used (JavaScript lists the keys that are array indices before the
  others; no statement below depends on the order of two different keys).
\<close>

record errorInfo =
  err_timestamp :: json
  err_location :: "json option"
  err_message :: "json option"
  err_data :: "json option"

record taggedError =
  tag_timestamp :: json
  tag_location :: "json option"
  tag_message :: "json option"
  tag_data :: "json option"
  tag_hypothesisId :: "json option"

record group =
  count :: nat
  levels :: "(string \<times> tally) list"
  locations :: "(string \<times> tally) list"
  errors :: "errorInfo list"
  firstTimestamp :: json
  lastTimestamp :: json

record analysis =
  total :: nat
  timeRange_first :: json
  timeRange_last :: json
  timeRange_duration :: json
  hypotheses :: "(string \<times> group) list"
  all_errors :: "taggedError list"

subsection \<open>\<^verbatim>\<open>parseLogFile\<close>\<close>

definition parseLogFile :: "(string \<Rightarrow> json option) \<Rightarrow> string option \<Rightarrow> json list" where
  "parseLogFile parse store =
     (case store of
        None \<Rightarrow> []
      | Some content \<Rightarrow>
          List.map_filter parse (filter (\<lambda>l. trim l \<noteq> []) (split_nl (trim content))))"

subsection \<open>\<^verbatim>\<open>analyzeEntries\<close>\<close>

text \<open>
  \<^verbatim>\<open>filterHypothesis && entry.hypothesisId !== filterHypothesis\<close>: the entry is passed
  over.  The filter is \<open>None\<close> when the option was not given.
\<close>

definition skipped :: "string option \<Rightarrow> json \<Rightarrow> bool" where
  "skipped filterHypothesis entry =
     (case filterHypothesis of
        None \<Rightarrow> False
      | Some x \<Rightarrow> x \<noteq> [] \<and> get_prop entry ''hypothesisId'' \<noteq> Some (JStr x))"

text \<open>\<^verbatim>\<open>entry.timestamp || Date.now()\<close>, where \<open>now\<close> is the reading of the clock.\<close>

definition time_of :: "int \<Rightarrow> json \<Rightarrow> json" where
  "time_of now entry =
     (case get_prop entry ''timestamp'' of
        None \<Rightarrow> JNum now
      | Some v \<Rightarrow> if truthy v then v else JNum now)"

text \<open>
  \<^verbatim>\<open>if (!bound || ts < bound) bound = ts\<close> and \<^verbatim>\<open>if (!bound || ts > bound) bound = ts\<close>
  on the global time range: the new bound, unless the comparison throws.
\<close>

definition lower :: "arith \<Rightarrow> json \<Rightarrow> json \<Rightarrow> error + json" where
  "lower ar bound ts =
     (if \<not> truthy bound then Inr ts
      else and_then (js_less ar ts bound) (\<lambda>b. Inr (if b then ts else bound)))"

definition upper :: "arith \<Rightarrow> json \<Rightarrow> json \<Rightarrow> error + json" where
  "upper ar bound ts =
     (if \<not> truthy bound then Inr ts
      else and_then (js_less ar bound ts) (\<lambda>b. Inr (if b then ts else bound)))"

text \<open>\<^verbatim>\<open>entry.level || 'info'\<close>.\<close>

definition level_of :: "json \<Rightarrow> json" where
  "level_of entry =
     (case get_prop entry ''level'' of
        None \<Rightarrow> JStr ''info''
      | Some v \<Rightarrow> if truthy v then v else JStr ''info'')"

definition new_group :: "json \<Rightarrow> group" where
  "new_group ts =
     \<lparr>count = 0, levels = [], locations = [], errors = [],
      firstTimestamp = ts, lastTimestamp = ts\<rparr>"

text \<open>
  \<^verbatim>\<open>analysis.hypotheses[hId]\<close>, created when the read is falsy.  Under an inherited
  key the read is truthy and is not a group: the body then throws at
  \<^verbatim>\<open>h.levels[level]\<close>, because that value has no \<^verbatim>\<open>levels\<close>.
\<close>

definition group_for :: "(string \<times> group) list \<Rightarrow> string \<Rightarrow> json \<Rightarrow> error + group" where
  "group_for hs key ts =
     (case map_of hs key of
        Some h \<Rightarrow> Inr h
      | None \<Rightarrow> if proto_text key = None then Inr (new_group ts) else Inl TypeError)"

definition errorInfo_of :: "json \<Rightarrow> json \<Rightarrow> errorInfo" where
  "errorInfo_of ts entry =
     \<lparr>err_timestamp = ts,
      err_location = get_prop entry ''location'',
      err_message = get_prop entry ''message'',
      err_data = get_prop entry ''data''\<rparr>"

definition tagged_of :: "json \<Rightarrow> json \<Rightarrow> taggedError" where
  "tagged_of ts entry =
     \<lparr>tag_timestamp = ts,
      tag_location = get_prop entry ''location'',
      tag_message = get_prop entry ''message'',
      tag_data = get_prop entry ''data'',
      tag_hypothesisId = get_prop entry ''hypothesisId''\<rparr>"

text \<open>
  The statements of the loop body that update the group \<open>h\<close> of the entry, in
  their order: \<^verbatim>\<open>h.count++\<close>, the comparisons with the two time stamps of the group,
  the tallies by level and by location (each converts its key), and
  \<^verbatim>\<open>h.errors.push(errorInfo)\<close> when the level is \<^verbatim>\<open>'error'\<close>.  The result is the group
  they leave, or the error that one of them throws.
\<close>

definition update_group :: "arith \<Rightarrow> group \<Rightarrow> json \<Rightarrow> json \<Rightarrow> error + group" where
  "update_group ar h ts entry =
     and_then (js_less ar ts (firstTimestamp h)) (\<lambda>earlier.
     and_then (js_less ar (lastTimestamp h) ts) (\<lambda>later.
     and_then (toKey (level_of entry)) (\<lambda>lv.
     and_then (key_of (get_prop entry ''location'')) (\<lambda>loc.
       Inr \<lparr>count = count h + 1,
            levels = bump (levels h) lv,
            locations = bump (locations h) loc,
            errors = (if level_of entry = JStr ''error'' then errors h @ [errorInfo_of ts entry]
                      else errors h),
            firstTimestamp = (if earlier then ts else firstTimestamp h),
            lastTimestamp = (if later then ts else lastTimestamp h)\<rparr>))))"

text \<open>The body of the loop for one entry; \<open>now\<close> is what \<^verbatim>\<open>Date.now()\<close> returns in it.\<close>

definition analyzeEntry ::
  "arith \<Rightarrow> int \<Rightarrow> string option \<Rightarrow> json \<Rightarrow> analysis \<Rightarrow> error + analysis" where
  "analyzeEntry ar now filterHypothesis entry a =
     (if entry = JNull then Inl TypeError
      else if skipped filterHypothesis entry then Inr a
      else
        and_then (lower ar (timeRange_first a) (time_of now entry)) (\<lambda>first.
        and_then (upper ar (timeRange_last a) (time_of now entry)) (\<lambda>last.
        and_then (key_of (get_prop entry ''hypothesisId'')) (\<lambda>hId.
        and_then (group_for (hypotheses a) hId (time_of now entry)) (\<lambda>h.
        and_then (update_group ar h (time_of now entry) entry) (\<lambda>h'.
          Inr \<lparr>total = total a + 1,
               timeRange_first = first,
               timeRange_last = last,
               timeRange_duration = timeRange_duration a,
               hypotheses = AList.update hId h' (hypotheses a),
               all_errors =
                 (if level_of entry = JStr ''error''
                  then all_errors a @ [tagged_of (time_of now entry) entry]
                  else all_errors a)\<rparr>))))))"

text \<open>
  The loop over the entries.  \<open>now i\<close> is the reading of the clock while the
  entry at position \<open>i\<close> is processed (the body reads the clock at most once).
\<close>

fun analyzeLoop ::
  "arith \<Rightarrow> (nat \<Rightarrow> int) \<Rightarrow> string option \<Rightarrow> nat \<Rightarrow> json list \<Rightarrow> analysis
     \<Rightarrow> error + analysis" where
  "analyzeLoop ar now f i [] a = Inr a"
| "analyzeLoop ar now f i (entry # entries) a =
     (case analyzeEntry ar (now i) f entry a of
        Inl e \<Rightarrow> Inl e
      | Inr a' \<Rightarrow> analyzeLoop ar now f (Suc i) entries a')"

definition empty_analysis :: analysis where
  "empty_analysis =
     \<lparr>total = 0, timeRange_first = JNull, timeRange_last = JNull, timeRange_duration = JNum 0,
      hypotheses = [], all_errors = []\<rparr>"

text \<open>\<^verbatim>\<open>if (first && last) duration = last - first\<close>.\<close>

definition with_duration :: "arith \<Rightarrow> analysis \<Rightarrow> error + analysis" where
  "with_duration ar a =
     (if truthy (timeRange_first a) \<and> truthy (timeRange_last a)
      then and_then (js_minus ar (timeRange_last a) (timeRange_first a))
             (\<lambda>d. Inr (a\<lparr>timeRange_duration := d\<rparr>))
      else Inr a)"

definition analyzeEntries ::
  "arith \<Rightarrow> (nat \<Rightarrow> int) \<Rightarrow> json list \<Rightarrow> string option \<Rightarrow> error + analysis" where
  "analyzeEntries ar now entries filterHypothesis =
     and_then (analyzeLoop ar now filterHypothesis 0 entries empty_analysis) (with_duration ar)"

text \<open>
  The script: it reads the store and computes the report.  It calls nothing that
  writes, so the store is no part of what it returns.  An \<open>Inl\<close> result is an
  exception that nothing catches: the script ends without a report.
\<close>

definition analyze_logs ::
  "arith \<Rightarrow> (string \<Rightarrow> json option) \<Rightarrow> (nat \<Rightarrow> int) \<Rightarrow> string option \<Rightarrow> string option
     \<Rightarrow> error + analysis" where
  "analyze_logs ar parse now filterHypothesis store =
     analyzeEntries ar now (parseLogFile parse store) filterHypothesis"

text \<open>A clock that reads \<open>t\<close> throughout a run.\<close>

definition steady :: "int \<Rightarrow> nat \<Rightarrow> int" where
  "steady t i = t"


text \<open>
  A report without its time stamps: the total, the groups in their order with
  their counts, tallies and errors, and the global error list, every time stamp
  and the duration being replaced by \<^verbatim>\<open>null\<close>.
\<close>

definition untimed_error :: "errorInfo \<Rightarrow> errorInfo" where
  "untimed_error e =
     \<lparr>err_timestamp = JNull, err_location = err_location e, err_message = err_message e,
      err_data = err_data e\<rparr>"

definition untimed_tagged :: "taggedError \<Rightarrow> taggedError" where
  "untimed_tagged e =
     \<lparr>tag_timestamp = JNull, tag_location = tag_location e, tag_message = tag_message e,
      tag_data = tag_data e, tag_hypothesisId = tag_hypothesisId e\<rparr>"

definition untimed_group :: "group \<Rightarrow> group" where
  "untimed_group h =
     \<lparr>count = count h, levels = levels h, locations = locations h,
      errors = map untimed_error (errors h), firstTimestamp = JNull, lastTimestamp = JNull\<rparr>"

definition untimed :: "analysis \<Rightarrow> analysis" where
  "untimed a =
     \<lparr>total = total a, timeRange_first = JNull, timeRange_last = JNull,
      timeRange_duration = JNull,
      hypotheses = map (\<lambda>(k, h). (k, untimed_group h)) (hypotheses a),
      all_errors = map untimed_tagged (all_errors a)\<rparr>"

definition untimed_result :: "error + analysis \<Rightarrow> error + analysis" where
  "untimed_result r = (case r of Inl e \<Rightarrow> Inl e | Inr a \<Rightarrow> Inr (untimed a))"

subsection \<open>Concrete stores and reports\<close>

definition store_B :: "string option" where
  "store_B = Some (JSON_stringify entry_B @ [CHR 0x0A])"

text \<open>The report on a store that holds \<open>entry_B\<close> alone, read while the clock shows \<open>t\<close>.\<close>

definition report_B :: "int \<Rightarrow> analysis" where
  "report_B t =
     \<lparr>total = 1, timeRange_first = JNum t, timeRange_last = JNum t,
      timeRange_duration = JNum 0,
      hypotheses =
        [(''B'', \<lparr>count = 1, levels = [(''info'', Count 1)],
                  locations = [(''a.js:f'', Count 1)], errors = [],
                  firstTimestamp = JNum t, lastTimestamp = JNum t\<rparr>)],
      all_errors = []\<rparr>"


definition entry_toString :: json where
  "entry_toString = JObj [(''location'', JStr ''toString''), (''hypothesisId'', JStr ''A''),
                          (''message'', JStr ''entry''), (''timestamp'', JNum 1000)]"

definition report_toString :: analysis where
  "report_toString =
     \<lparr>total = 1, timeRange_first = JNum 1000, timeRange_last = JNum 1000,
      timeRange_duration = JNum 0,
      hypotheses =
        [(''A'', \<lparr>count = 1, levels = [(''info'', Count 1)],
                  locations = [(''toString'', Text ''function toString() { [native code] }1'')],
                  errors = [], firstTimestamp = JNum 1000, lastTimestamp = JNum 1000\<rparr>)],
      all_errors = []\<rparr>"

definition store_B_stamped :: "string option" where
  "store_B_stamped = Some (JSON_stringify entry_B_stamped @ [CHR 0x0A])"



definition store_toString :: "string option" where
  "store_toString = Some (JSON_stringify entry_toString @ [CHR 0x0A])"

text \<open>
  An entry whose \<^verbatim>\<open>timestamp\<close> is a string that is no date and no number, and the
  report on a store that holds it alone.
\<close>

definition entry_yesterday :: json where
  "entry_yesterday = JObj [(''location'', JStr ''a.js:f''), (''hypothesisId'', JStr ''A''),
                           (''message'', JStr ''entry''), (''timestamp'', JStr ''yesterday'')]"

definition report_yesterday :: "arith \<Rightarrow> analysis" where
  "report_yesterday ar =
     \<lparr>total = 1, timeRange_first = JStr ''yesterday'', timeRange_last = JStr ''yesterday'',
      timeRange_duration = number_minus ar (JStr ''yesterday'') (JStr ''yesterday''),
      hypotheses =
        [(''A'', \<lparr>count = 1, levels = [(''info'', Count 1)],
                  locations = [(''a.js:f'', Count 1)], errors = [],
                  firstTimestamp = JStr ''yesterday'', lastTimestamp = JStr ''yesterday''\<rparr>)],
      all_errors = []\<rparr>"

text \<open>An entry whose \<^verbatim>\<open>level\<close> is the array \<^verbatim>\<open>["error"]\<close>, and the report on it alone.\<close>

definition entry_error_array :: json where
  "entry_error_array =
     JObj [(''location'', JStr ''a.js:f''), (''hypothesisId'', JStr ''A''),
           (''message'', JStr ''entry''), (''level'', JArr [JStr ''error'']),
           (''timestamp'', JNum 1000)]"

definition report_error_array :: analysis where
  "report_error_array =
     \<lparr>total = 1, timeRange_first = JNum 1000, timeRange_last = JNum 1000,
      timeRange_duration = JNum 0,
      hypotheses =
        [(''A'', \<lparr>count = 1, levels = [(''error'', Count 1)],
                  locations = [(''a.js:f'', Count 1)], errors = [],
                  firstTimestamp = JNum 1000, lastTimestamp = JNum 1000\<rparr>)],
      all_errors = []\<rparr>"

subsection \<open>What a report is expected to satisfy\<close>

text \<open>
  The sum of the tallies of a dictionary and the tally under a key, a text
  counting for nothing; \<open>all_counts\<close> holds when no tally is a text.
\<close>

definition tally_sum :: "(string \<times> tally) list \<Rightarrow> nat" where
  "tally_sum m = sum_list (map (\<lambda>(k, t). case t of Count n \<Rightarrow> n | Text s \<Rightarrow> 0) m)"

definition all_counts :: "(string \<times> tally) list \<Rightarrow> bool" where
  "all_counts m \<longleftrightarrow> list_all (\<lambda>(k, t). case t of Count n \<Rightarrow> True | Text s \<Rightarrow> False) m"

definition tally_at :: "(string \<times> tally) list \<Rightarrow> string \<Rightarrow> nat" where
  "tally_at m k = (case map_of m k of Some (Count n) \<Rightarrow> n | _ \<Rightarrow> 0)"

text \<open>The two time stamps of a group are numbers, the first not after the last.\<close>

definition stamps_in_order :: "group \<Rightarrow> bool" where
  "stamps_in_order h \<longleftrightarrow>
     (case firstTimestamp h of
        JNum a \<Rightarrow> (case lastTimestamp h of JNum b \<Rightarrow> a \<le> b | _ \<Rightarrow> False)
      | _ \<Rightarrow> False)"

text \<open>
  A group is in order when its tallies are numbers, its count is the sum of its
  per-level tallies and of its per-location tallies, it has as many errors as
  its tally for the level \<^verbatim>\<open>error\<close>, and its first time stamp is not after its last.
  A report is in order when its groups are, its total is the sum of their counts
  and its global error list is as long as their error lists together.
\<close>

definition group_ok :: "group \<Rightarrow> bool" where
  "group_ok h \<longleftrightarrow>
     all_counts (levels h) \<and> all_counts (locations h)
     \<and> count h = tally_sum (levels h)
     \<and> count h = tally_sum (locations h)
     \<and> length (errors h) = tally_at (levels h) ''error''
     \<and> stamps_in_order h"

definition report_ok :: "analysis \<Rightarrow> bool" where
  "report_ok a \<longleftrightarrow>
     list_all (\<lambda>(k, h). group_ok h) (hypotheses a)
     \<and> total a = sum_list (map (\<lambda>(k, h). count h) (hypotheses a))
     \<and> length (all_errors a) = sum_list (map (\<lambda>(k, h). length (errors h)) (hypotheses a))"

text \<open>
  What holds of the analysis between two entries of a run: every time stamp it
  keeps converts to a primitive value, and no group stands under an inherited key.
\<close>

definition settled_group :: "string \<times> group \<Rightarrow> bool" where
  "settled_group kh \<longleftrightarrow>
     proto_text (fst kh) = None
     \<and> convertible (firstTimestamp (snd kh)) \<and> convertible (lastTimestamp (snd kh))"

definition settled :: "analysis \<Rightarrow> bool" where
  "settled a \<longleftrightarrow>
     convertible (timeRange_first a) \<and> convertible (timeRange_last a)
     \<and> list_all settled_group (hypotheses a)"

text \<open>
  An entry is plain when its level and its location convert to keys under which
  nothing is inherited, its level, when it converts to \<^verbatim>\<open>error\<close>, is that string,
  and its time stamp is absent, falsy or an integer.
\<close>

definition plain_key :: "error + string \<Rightarrow> bool" where
  "plain_key r = (case r of Inl e \<Rightarrow> False | Inr k \<Rightarrow> proto_text k = None)"

definition plain_entry :: "json \<Rightarrow> bool" where
  "plain_entry e \<longleftrightarrow>
     plain_key (toKey (level_of e))
     \<and> plain_key (key_of (get_prop e ''location''))
     \<and> (toKey (level_of e) = Inr ''error'' \<longrightarrow> level_of e = JStr ''error'')
     \<and> (case get_prop e ''timestamp'' of
          None \<Rightarrow> True
        | Some (JNum n) \<Rightarrow> True
        | Some v \<Rightarrow> \<not> truthy v)"

text \<open>
  The entries on which a run does not stop: the entry is not \<^verbatim>\<open>null\<close>, its time
  stamp, its level and its location convert to primitive values, and its
  hypothesis id converts to a key under which nothing is inherited.
\<close>

definition analyzable :: "json \<Rightarrow> bool" where
  "analyzable e \<longleftrightarrow>
     e \<noteq> JNull
     \<and> convertible_prop (get_prop e ''timestamp'')
     \<and> plain_key (key_of (get_prop e ''hypothesisId''))
     \<and> convertible (level_of e)
     \<and> convertible_prop (get_prop e ''location'')"

section \<open>The tailer (scripts/tail-logs.mjs)\<close>

subsection \<open>\<^verbatim>\<open>printEntry\<close> and \<^verbatim>\<open>processNewLines\<close>\<close>

datatype colour = Cyan | Yellow | Magenta | Green | Blue | Inherited | NoColour

definition hypothesisColors :: "(string \<times> colour) list" where
  "hypothesisColors =
     [(''A'', Cyan), (''B'', Yellow), (''C'', Magenta), (''D'', Green), (''E'', Blue)]"

text \<open>
  \<^verbatim>\<open>getHypothesisColor\<close>.  The table is an object literal: the id is converted to a
  key, and a read of a key that the table does not own yields what
  \<^verbatim>\<open>Object.prototype\<close> has under that key (\<open>Inherited\<close>).
  Otherwise \<^verbatim>\<open>id.charCodeAt(0)\<close> is called, which throws unless the id is a string; for
  the empty string the index is \<^verbatim>\<open>NaN\<close> and the list yields no colour.
\<close>

definition getHypothesisColor :: "json option \<Rightarrow> error + colour" where
  "getHypothesisColor hid =
     and_then (key_of hid) (\<lambda>k.
       case map_of hypothesisColors k of
         Some c \<Rightarrow> Inr c
       | None \<Rightarrow>
           if proto_text k \<noteq> None then Inr Inherited
           else (case hid of
                   Some (JStr s) \<Rightarrow>
                     Inr (if s = [] then NoColour
                          else [Cyan, Yellow, Magenta, Green, Blue] ! (of_char (hd s) mod 5))
                 | _ \<Rightarrow> Inl TypeError))"

text \<open>
  What the tailer emits: an entry printed by \<^verbatim>\<open>printEntry\<close>, the header line of an
  entry alone, or the notice \<^verbatim>\<open>[parse error]\<close> with the line.  The text that
  \<^verbatim>\<open>printEntry\<close> writes is determined by the entry (and by the clock, for an entry
  without time stamp); the event records the entry.

  \<^verbatim>\<open>printEntry\<close> returns what it wrote and the error it threw, if any.  It throws
  before it writes anything when the entry is \<^verbatim>\<open>null\<close>, when \<^verbatim>\<open>new Date\<close> gets a time
  stamp that does not convert to a primitive value, when \<^verbatim>\<open>getHypothesisColor\<close>
  throws, and when the level (used as a key of \<^verbatim>\<open>levelColors\<close>) or the location
  (spliced into the header line) does not convert.  It throws after the header
  line when the message does not convert.  The data is printed through
  \<^verbatim>\<open>JSON.stringify\<close>, which converts nothing.
\<close>

datatype event = Printed json | Header json | ParseError string

definition printEntry :: "json \<Rightarrow> event list \<times> error option" where
  "printEntry entry =
     (if entry = JNull then ([], Some TypeError)
      else if \<not> convertible_prop (get_prop entry ''timestamp'') then ([], Some TypeError)
      else (case getHypothesisColor (get_prop entry ''hypothesisId'') of
              Inl e \<Rightarrow> ([], Some e)
            | Inr c \<Rightarrow>
                if \<not> convertible (level_of entry)
                   \<or> \<not> convertible_prop (get_prop entry ''location'')
                then ([], Some TypeError)
                else if \<not> convertible_prop (get_prop entry ''message'')
                then ([Header entry], Some TypeError)
                else ([Printed entry], None)))"

text \<open>
  \<^verbatim>\<open>processNewLines\<close>.  Whatever is thrown inside the \<^verbatim>\<open>try\<close> (by \<^verbatim>\<open>JSON.parse\<close>, by the
  read of \<^verbatim>\<open>entry.hypothesisId\<close> on \<^verbatim>\<open>null\<close>, by \<^verbatim>\<open>printEntry\<close>) ends in the notice.
\<close>

fun processNewLines ::
  "(string \<Rightarrow> json option) \<Rightarrow> string option \<Rightarrow> string list \<Rightarrow> event list" where
  "processNewLines parse f [] = []"
| "processNewLines parse f (line # lines) =
     (if trim line = [] then processNewLines parse f lines
      else
       (case parse line of
          None \<Rightarrow> ParseError line # processNewLines parse f lines
        | Some entry \<Rightarrow>
            if entry = JNull then ParseError line # processNewLines parse f lines
            else if skipped f entry then processNewLines parse f lines
            else (case printEntry entry of
                    (evs, None) \<Rightarrow> evs @ processNewLines parse f lines
                  | (evs, Some e) \<Rightarrow> evs @ ParseError line # processNewLines parse f lines)))"

text \<open>
  The entries that \<^verbatim>\<open>printEntry\<close> prints in full: those that the collector accepts
  and whose level and time stamp convert to primitive values.
\<close>

definition printable :: "json \<Rightarrow> bool" where
  "printable e \<longleftrightarrow>
     validateEntry e = None
     \<and> convertible_prop (get_prop e ''level'')
     \<and> convertible_prop (get_prop e ''timestamp'')"

subsection \<open>\<^verbatim>\<open>readNewContent\<close>\<close>

text \<open>
  The size of a file in bytes: a code unit below U+0080 takes one byte in UTF-8,
  the others (below U+0100) take two.
\<close>

definition byteLength :: "string \<Rightarrow> nat" where
  "byteLength s = sum_list (map (\<lambda>c. if (of_char c :: nat) < 128 then 1 else 2) s)"

record tail_state =
  lastSize :: nat
  buffer :: string

text \<open>
  What the file system calls of one run of \<^verbatim>\<open>readNewContent\<close> return:
  \<^verbatim>\<open>statSync(LOG_FILE).size\<close> and \<^verbatim>\<open>readFileSync(LOG_FILE, 'utf8')\<close> (\<open>None\<close> when the
  call throws), and \<^verbatim>\<open>existsSync(LOG_FILE)\<close> in the \<^verbatim>\<open>catch\<close>.
\<close>

record observation =
  stat_size :: "nat option"
  file_content :: "string option"
  file_exists :: bool

definition reset :: tail_state where
  "reset = \<lparr>lastSize = 0, buffer = []\<rparr>"

definition readNewContent ::
  "(string \<Rightarrow> json option) \<Rightarrow> string option \<Rightarrow> tail_state \<Rightarrow> observation
     \<Rightarrow> tail_state \<times> event list" where
  "readNewContent parse f st ob =
     (case stat_size ob of
        None \<Rightarrow> (if \<not> file_exists ob then reset else st, [])
      | Some currentSize \<Rightarrow>
         (let st1 = (if currentSize < lastSize st then reset else st) in
          if currentSize > lastSize st1 then
            (case file_content ob of
               None \<Rightarrow> (if \<not> file_exists ob then reset else st1, [])
             | Some fileContent \<Rightarrow>
                (let newContent = drop (lastSize st1) fileContent;
                     lines = split_nl (buffer st1 @ newContent)
                 in (\<lparr>lastSize = currentSize, buffer = last lines\<rparr>,
                     processNewLines parse f (butlast lines))))
          else (st1, [])))"

text \<open>The three calls on a store that does not change while the run lasts.\<close>

definition observe :: "string option \<Rightarrow> observation" where
  "observe store =
     \<lparr>stat_size = map_option byteLength store, file_content = store,
      file_exists = (store \<noteq> None)\<rparr>"

text \<open>
  \<^verbatim>\<open>tailLogs\<close> once the file exists: the cursor starts at the size of the file, and
  \<^verbatim>\<open>readNewContent\<close> runs at every change notice and every 500 ms.  \<open>tail_run\<close>
  gives the state after a sequence of such runs and all that they emitted.
\<close>

definition tail_init :: "observation \<Rightarrow> tail_state" where
  "tail_init ob =
     \<lparr>lastSize = (case stat_size ob of None \<Rightarrow> 0 | Some n \<Rightarrow> n), buffer = []\<rparr>"

fun tail_run ::
  "(string \<Rightarrow> json option) \<Rightarrow> string option \<Rightarrow> tail_state \<Rightarrow> observation list
     \<Rightarrow> tail_state \<times> event list" where
  "tail_run parse f st [] = (st, [])"
| "tail_run parse f st (ob # obs) =
     (case readNewContent parse f st ob of
        (st1, ev1) \<Rightarrow>
          (case tail_run parse f st1 obs of (st2, ev2) \<Rightarrow> (st2, ev1 @ ev2)))"

text \<open>
  The store as successive runs find it, when it starts as \<open>c\<close> and the texts
  \<open>ns\<close> are appended to it, each between one run and the next.  A text may hold
  no line, one line or several lines.
\<close>

fun snapshots :: "string \<Rightarrow> string list \<Rightarrow> string list" where
  "snapshots c [] = []"
| "snapshots c (n # ns) = (c @ n) # snapshots (c @ n) ns"

text \<open>The line that \<^verbatim>\<open>writeLogEntry\<close> appends for an entry.\<close>

definition line_of :: "json \<Rightarrow> string" where
  "line_of entry = JSON_stringify entry @ [CHR 0x0A]"

definition single_byte :: "string \<Rightarrow> bool" where
  "single_byte s \<longleftrightarrow> list_all (\<lambda>c. (of_char c :: nat) < 128) s"

definition entry_P :: json where
  "entry_P = JObj [(''location'', JStr ''a.js:f''), (''hypothesisId'', JStr ''A''),
                   (''message'', JStr ''ok''), (''timestamp'', JNum 1000)]"

definition entry_R :: json where
  "entry_R = JObj [(''location'', JStr ''a.js:f''), (''hypothesisId'', JStr ''C''),
                   (''message'', JStr ''ok''), (''timestamp'', JNum 1000)]"

text \<open>An entry whose message is the letter e with acute accent, U+00E9.\<close>

definition entry_accent :: json where
  "entry_accent = JObj [(''location'', JStr ''a.js:f''), (''hypothesisId'', JStr ''A''),
                        (''message'', JStr [CHR 0xE9]), (''timestamp'', JNum 1000)]"

text \<open>An entry that the collector accepts and whose level is an object with a \<^verbatim>\<open>toString\<close> of its own.\<close>

definition entry_level_object :: json where
  "entry_level_object =
     JObj [(''location'', JStr ''a.js:f''), (''hypothesisId'', JStr ''A''),
           (''message'', JStr ''ok''), (''level'', JObj [(''toString'', JNum 1)]),
           (''timestamp'', JNum 1000)]"

section \<open>Properties of the JavaScript helpers\<close>

lemma typeof_string_iff: "typeof v = ''string'' \<longleftrightarrow> (\<exists>s. v = Some (JStr s))"
  by (cases v rule: typeof.cases) auto

lemma digit_char_in: "d < 10 \<Longrightarrow> digit_char d \<in> set ''0123456789''"
  unfolding digit_char_def by (rule nth_mem) simp

lemma digits_subset: "set (digits n) \<subseteq> set ''0123456789''"
proof (induction n rule: digits.induct)
  case (1 n)
  show ?case
  proof (cases "n < 10")
    case True
    then show ?thesis using digit_char_in[of n] by (subst digits.simps) simp
  next
    case False
    have "n mod 10 < 10" by simp
    from digit_char_in[OF this] 1[OF False] False show ?thesis
      by (subst digits.simps) simp
  qed
qed

lemma show_int_no_nl: "CHR 0x0A \<notin> set (show_int i)"
  using digits_subset by (auto simp: show_int_def)

lemma hex_char_in: "d < 16 \<Longrightarrow> hex_char d \<in> set ''0123456789abcdef''"
  unfolding hex_char_def by (rule nth_mem) simp

lemma hex_char_no_nl: "d < 16 \<Longrightarrow> hex_char d \<noteq> CHR 0x0A"
  using hex_char_in[of d] by auto

lemma of_char_div16: "(of_char c :: nat) div 16 < 16"
proof -
  have "(of_char c :: nat) < 256" by (rule nat_of_char_less_256)
  then show ?thesis by arith
qed

lemma escape_char_no_nl: "CHR 0x0A \<notin> set (escape_char c)"
  using hex_char_no_nl[OF of_char_div16[of c]] hex_char_no_nl[of "of_char c mod 16"]
  by (simp add: escape_char_def)

lemma quote_no_nl: "CHR 0x0A \<notin> set (quote s)"
  by (simp add: quote_def escape_char_no_nl)

lemma join_no_nl:
  "CHR 0x0A \<notin> set sep \<Longrightarrow> (\<And>x. x \<in> set xs \<Longrightarrow> CHR 0x0A \<notin> set x)
   \<Longrightarrow> CHR 0x0A \<notin> set (join sep xs)"
  by (induction sep xs rule: join.induct) auto

text \<open>A serialised value never contains a line feed: it is one line of the store.\<close>

lemma JSON_stringify_no_nl: "CHR 0x0A \<notin> set (JSON_stringify v)"
proof (induction v)
  case (JArr xs)
  have "CHR 0x0A \<notin> set (join '','' (map JSON_stringify xs))"
    by (rule join_no_nl) (use JArr in auto)
  then show ?case by simp
next
  case (JObj kvs)
  have "CHR 0x0A \<notin> set (join '','' (map (\<lambda>(k, v). quote k @ '':'' @ JSON_stringify v) kvs))"
  proof (rule join_no_nl)
    fix x assume "x \<in> set (map (\<lambda>(k, v). quote k @ '':'' @ JSON_stringify v) kvs)"
    then obtain k v where kv: "(k, v) \<in> set kvs" and x: "x = quote k @ '':'' @ JSON_stringify v"
      by auto
    from JObj[OF kv] have "CHR 0x0A \<notin> set (JSON_stringify v)" by simp
    then show "CHR 0x0A \<notin> set x" by (simp add: x quote_no_nl)
  qed simp
  then show ?case by simp
qed (simp_all add: show_int_no_nl quote_no_nl)

lemma JSON_stringify_JObj_nonempty: "JSON_stringify (JObj kvs) \<noteq> []"
  by simp

lemma split_nl_nonempty: "split_nl s \<noteq> []"
  by (induction s) (auto split: list.splits)

lemma split_nl_no_nl: "CHR 0x0A \<notin> set l \<Longrightarrow> split_nl l = [l]"
  by (induction l) auto

lemma split_nl_line: "CHR 0x0A \<notin> set l \<Longrightarrow> split_nl (l @ [CHR 0x0A]) = [l, []]"
  by (induction l) auto

text \<open>Splitting a text that arrives in two parts: the piece cut by the seam is glued.\<close>

lemma split_nl_append:
  "split_nl (a @ b) = butlast (split_nl a) @ split_nl (last (split_nl a) @ b)"
proof (induction a)
  case Nil
  show ?case by simp
next
  case (Cons c a)
  obtain t T where T: "split_nl a = t # T"
    using split_nl_nonempty[of a] by (cases "split_nl a") auto
  show ?case
  proof (cases "c = CHR 0x0A")
    case True
    then show ?thesis using Cons T by simp
  next
    case False
    show ?thesis
    proof (cases T)
      case Nil
      with False Cons T show ?thesis by (simp split: list.splits)
    next
      case (Cons t2 T2)
      with False Cons.IH T show ?thesis by (simp split: list.splits)
    qed
  qed
qed


section \<open>Reading what was written\<close>

lemma digit_cases: "d < 10 \<Longrightarrow> d \<in> {0, 1, 2, 3, 4, 5, 6, 7, 8, 9::nat}"
  by auto

lemma digit_char_props:
  assumes "d < 10"
  shows "is_digit (digit_char d)" and "digit_val (digit_char d) = d"
    and "(digit_char d = CHR ''0'') = (d = 0)"
  using digit_cases[OF assms]
  by (auto simp: digit_char_def is_digit_def digit_val_def)

lemma is_digit_not_special:
  assumes "is_digit c"
  shows "c \<noteq> CHR ''-''" "c \<noteq> CHR ''n''" "c \<noteq> CHR ''t''" "c \<noteq> CHR ''f''" "c \<noteq> CHR 0x22"
    "c \<noteq> CHR ''[''" "c \<noteq> CHR ''{''" "c \<noteq> CHR '']''"
  using assms by (auto simp: is_digit_def)

lemma read_digits_digits:
  "read_digits acc (digits n @ r) = read_digits (acc * 10 ^ length (digits n) + n) r"
proof (induction n arbitrary: acc r rule: digits.induct)
  case (1 n)
  show ?case
  proof (cases "n < 10")
    case True
    then show ?thesis
      by (subst (1 2) digits.simps) (simp add: digit_char_props)
  next
    case False
    have m: "n mod 10 < 10" by simp
    have "read_digits acc (digits n @ r)
        = read_digits acc (digits (n div 10) @ digit_char (n mod 10) # r)"
      using False by (subst digits.simps) simp
    also have "\<dots> = read_digits (acc * 10 ^ length (digits (n div 10)) + n div 10)
                       (digit_char (n mod 10) # r)"
      by (rule 1[OF False])
    also have "\<dots> = read_digits ((acc * 10 ^ length (digits (n div 10)) + n div 10) * 10
                         + n mod 10) r"
      by (simp add: digit_char_props[OF m])
    also have "(acc * 10 ^ length (digits (n div 10)) + n div 10) * 10 + n mod 10
        = acc * 10 ^ length (digits n) + n"
      using False by (subst (2) digits.simps) (simp add: algebra_simps)
    finally show ?thesis .
  qed
qed

lemma read_digits_stop: "r = [] \<or> \<not> is_digit (hd r) \<Longrightarrow> read_digits acc r = (acc, r)"
  by (cases r) auto

lemma digits_hd:
  "0 < n \<Longrightarrow> \<exists>c cs. digits n = c # cs \<and> c \<noteq> CHR ''0'' \<and> is_digit c"
proof (induction n rule: digits.induct)
  case (1 n)
  show ?case
  proof (cases "n < 10")
    case True
    with "1.prems" show ?thesis
      by (subst digits.simps) (simp add: digit_char_props)
  next
    case False
    then have "0 < n div 10" by simp
    from 1(1)[OF False this] obtain c cs where "digits (n div 10) = c # cs"
      and "c \<noteq> CHR ''0''" and "is_digit c" by blast
    then show ?thesis using False by (subst digits.simps) simp
  qed
qed

lemma digits_0: "digits 0 = ''0''"
  by (simp add: digits.simps digit_char_def)

lemma read_natural_digits:
  assumes "r = [] \<or> \<not> is_digit (hd r)"
  shows "read_natural (digits n @ r) = Some (n, r)"
proof (cases "n = 0")
  case True
  then show ?thesis by (simp add: digits_0 read_natural_def)
next
  case False
  then obtain c cs where d: "digits n = c # cs" and c: "c \<noteq> CHR ''0''" "is_digit c"
    using digits_hd[of n] by auto
  have "read_natural (digits n @ r) = Some (read_digits 0 (digits n @ r))"
    by (simp add: d read_natural_def c)
  also have "read_digits 0 (digits n @ r) = (n, r)"
    by (simp add: read_digits_digits read_digits_stop[OF assms])
  finally show ?thesis .
qed

lemma show_int_hd: "\<exists>c cs. show_int i = c # cs \<and> (c = CHR ''-'' \<or> is_digit c)"
proof (cases "i < 0")
  case True
  then show ?thesis by (simp add: show_int_def)
next
  case False
  show ?thesis
  proof (cases "nat i = 0")
    case True
    with False show ?thesis by (simp add: show_int_def digits_0 is_digit_def)
  next
    case n: False
    then obtain c cs where "digits (nat i) = c # cs" "is_digit c"
      using digits_hd[of "nat i"] by auto
    with False show ?thesis by (simp add: show_int_def)
  qed
qed

lemma read_number_show_int:
  assumes "r = [] \<or> \<not> is_digit (hd r)"
  shows "read_number (show_int i @ r) = Some (JNum i, r)"
proof (cases "i < 0")
  case True
  then show ?thesis
    by (simp add: show_int_def read_number_def read_natural_digits[OF assms])
next
  case False
  obtain c cs where d: "show_int i = c # cs" and c: "c = CHR ''-'' \<or> is_digit c"
    using show_int_hd[of i] by blast
  from False d have "is_digit c"
    using digits_hd[of "nat i"] digits_0
    by (cases "nat i = 0") (auto simp: show_int_def is_digit_def)
  then have nm: "c \<noteq> CHR ''-''" by (rule is_digit_not_special)
  have "read_natural (show_int i @ r) = Some (nat i, r)"
    using False by (simp add: show_int_def read_natural_digits[OF assms])
  then show ?thesis using False nm d
    by (simp add: read_number_def)
qed


lemma hex_cases: "d < 16 \<Longrightarrow> d \<in> {0, 1, 2, 3, 4, 5, 6, 7, 8, 9, 10, 11, 12, 13, 14, 15::nat}"
  by (simp only: insert_iff empty_iff) arith

lemma hex_val_hex_char: "d < 16 \<Longrightarrow> hex_val (hex_char d) = Some d"
  using hex_cases[of d] by (auto simp: hex_val_def hex_char_def)

lemma hex_val_0: "hex_val (CHR ''0'') = Some 0"
  by (simp add: hex_val_def)

lemma char_of_div_mod: "char_of (16 * ((of_char c :: nat) div 16) + of_char c mod 16) = c"
  by simp

lemma read_chars_escape:
  assumes "read_chars rest = Some (s, r)"
  shows "read_chars (escape_char c @ rest) = Some (c # s, r)"
proof -
  consider (special) "c \<in> {CHR 0x22, CHR 0x5C, CHR 0x08, CHR 0x0C, CHR 0x0A, CHR 0x0D, CHR 0x09}"
    | (control) "c \<notin> {CHR 0x22, CHR 0x5C, CHR 0x08, CHR 0x0C, CHR 0x0A, CHR 0x0D, CHR 0x09}"
        "(of_char c :: nat) < 32"
    | (plain) "c \<notin> {CHR 0x22, CHR 0x5C, CHR 0x08, CHR 0x0C, CHR 0x0A, CHR 0x0D, CHR 0x09}"
        "\<not> (of_char c :: nat) < 32"
    by blast
  then show ?thesis
  proof cases
    case special
    then show ?thesis using assms by (auto simp: escape_char_def unescape_def)
  next
    case control
    have d: "(of_char c :: nat) div 16 < 16" "(of_char c :: nat) mod 16 < 16"
      using control(2) by simp_all
    from control show ?thesis using assms
      by (simp add: escape_char_def hex_val_0 hex_val_hex_char[OF d(1)] hex_val_hex_char[OF d(2)]
            char_of_div_mod)
  next
    case plain
    then show ?thesis using assms by (simp add: escape_char_def)
  qed
qed

lemma read_chars_quoted:
  "read_chars (concat (map escape_char s) @ CHR 0x22 # r) = Some (s, r)"
  by (induction s) (simp_all add: read_chars_escape)

lemma JSON_stringify_hd:
  "\<exists>c cs. JSON_stringify v = c # cs \<and> c \<noteq> CHR '']'' \<and> c \<noteq> CHR ''}''"
proof (cases v)
  case (JNum i)
  from show_int_hd[of i] show ?thesis
    by (auto simp: JNum is_digit_def)
qed (simp_all add: quote_def)

lemma length_join:
  "sum_list (map (\<lambda>y. Suc (length y)) ys) \<le> Suc (length (join '','' ys))"
  by (induction "'',''" ys rule: join.induct) simp_all

lemma weight_le_length: "weight v \<le> length (JSON_stringify v)"
proof (induction v)
  case (JNum i)
  from show_int_hd[of i] show ?case by auto
next
  case (JArr xs)
  have "sum_list (map (\<lambda>x. Suc (weight x)) xs)
      \<le> sum_list (map (\<lambda>y. Suc (length y)) (map JSON_stringify xs))"
    unfolding map_map comp_def by (rule sum_list_mono) (use JArr in simp)
  also note length_join
  finally show ?case by simp
next
  case (JObj kvs)
  have "sum_list (map (\<lambda>(k, v). Suc (weight v)) kvs)
      \<le> sum_list (map (\<lambda>y. Suc (length y))
           (map (\<lambda>(k, v). quote k @ '':'' @ JSON_stringify v) kvs))"
    unfolding map_map comp_def
  proof (rule sum_list_mono)
    fix x assume x: "x \<in> set kvs"
    obtain k v where kv: "x = (k, v)" by (cases x)
    from JObj[OF x[unfolded kv]] have "weight v \<le> length (JSON_stringify v)" by simp
    then show "(case x of (k, v) \<Rightarrow> Suc (weight v))
       \<le> Suc (length (case x of (k, v) \<Rightarrow> quote k @ '':'' @ JSON_stringify v))"
      by (simp add: kv)
  qed
  also note length_join
  finally show ?case by simp
qed (simp_all add: quote_def)


lemma join_hd:
  assumes "ys \<noteq> []" and "hd ys = c # cs"
  shows "\<exists>cs'. join sep ys = c # cs'"
proof -
  from assms obtain zs where ys: "ys = (c # cs) # zs" by (cases ys) auto
  show ?thesis unfolding ys by (cases zs) simp_all
qed

lemma read_elements_stringify:
  assumes "\<And>x n r. x \<in> set xs \<Longrightarrow> weight x \<le> n \<Longrightarrow> r = [] \<or> \<not> is_digit (hd r)
             \<Longrightarrow> read_value n (JSON_stringify x @ r) = Some (nullify x, r)"
    and "xs \<noteq> []" and "sum_list (map (\<lambda>x. Suc (weight x)) xs) \<le> n"
  shows "read_elements n (join '','' (map JSON_stringify xs) @ CHR '']'' # r)
           = Some (map nullify xs, r)"
  using assms
proof (induction xs arbitrary: n)
  case Nil
  then show ?case by simp
next
  case (Cons x xs)
  from Cons.prems(3) obtain m where n: "n = Suc m" and wx: "weight x \<le> m"
    and ws: "sum_list (map (\<lambda>x. Suc (weight x)) xs) \<le> m"
    by (cases n) auto
  show ?case
  proof (cases xs)
    case Nil
    have "read_value m (JSON_stringify x @ CHR '']'' # r) = Some (nullify x, CHR '']'' # r)"
      by (rule Cons.prems(1)) (simp_all add: wx is_digit_def)
    then show ?thesis by (simp add: Nil n)
  next
    case (Cons y ys)
    have one: "read_value m (JSON_stringify x @ CHR '','' # join '','' (map JSON_stringify xs)
                 @ CHR '']'' # r)
          = Some (nullify x, CHR '','' # join '','' (map JSON_stringify xs) @ CHR '']'' # r)"
      by (rule Cons.prems(1)) (simp_all add: wx is_digit_def)
    have two: "read_elements m (join '','' (map JSON_stringify xs) @ CHR '']'' # r)
          = Some (map nullify xs, r)"
      by (rule Cons.IH) (use Cons.prems(1) ws Cons in auto)
    from one two show ?thesis by (simp add: Cons n)
  qed
qed

lemma read_members_stringify:
  assumes "\<And>k v n r. (k, v) \<in> set kvs \<Longrightarrow> weight v \<le> n \<Longrightarrow> r = [] \<or> \<not> is_digit (hd r)
             \<Longrightarrow> read_value n (JSON_stringify v @ r) = Some (nullify v, r)"
    and "kvs \<noteq> []" and "sum_list (map (\<lambda>(k, v). Suc (weight v)) kvs) \<le> n"
  shows "read_members n (join '','' (map (\<lambda>(k, v). quote k @ '':'' @ JSON_stringify v) kvs)
                          @ CHR ''}'' # r)
           = Some (map (\<lambda>(k, v). (k, nullify v)) kvs, r)"
  using assms
proof (induction kvs arbitrary: n)
  case Nil
  then show ?case by simp
next
  case (Cons kv kvs)
  obtain k v where kv: "kv = (k, v)" by (cases kv)
  from Cons.prems(3) obtain m where n: "n = Suc m" and wx: "weight v \<le> m"
    and ws: "sum_list (map (\<lambda>(k, v). Suc (weight v)) kvs) \<le> m"
    by (cases n) (auto simp: kv)
  show ?case
  proof (cases kvs)
    case Nil
    have "read_value m (JSON_stringify v @ CHR ''}'' # r) = Some (nullify v, CHR ''}'' # r)"
      by (rule Cons.prems(1)[of k]) (simp_all add: wx is_digit_def kv)
    then show ?thesis
      by (simp add: Nil n kv quote_def read_chars_quoted)
  next
    case (Cons y ys)
    let ?rest = "join '','' (map (\<lambda>(k, v). quote k @ '':'' @ JSON_stringify v) kvs) @ CHR ''}'' # r"
    have one: "read_value m (JSON_stringify v @ CHR '','' # ?rest)
          = Some (nullify v, CHR '','' # ?rest)"
      by (rule Cons.prems(1)[of k]) (simp_all add: wx is_digit_def kv)
    have two: "read_members m ?rest = Some (map (\<lambda>(k, v). (k, nullify v)) kvs, r)"
      by (rule Cons.IH) (use Cons.prems(1) ws Cons in auto)
    from one two show ?thesis
      by (simp add: Cons n kv quote_def read_chars_quoted)
  qed
qed

text \<open>Reading what was written: the value comes back, its numbers that are not finite as \<^verbatim>\<open>null\<close>.\<close>

lemma read_value_stringify:
  assumes "weight v \<le> n" and "r = [] \<or> \<not> is_digit (hd r)"
  shows "read_value n (JSON_stringify v @ r) = Some (nullify v, r)"
  using assms
proof (induction v arbitrary: n r)
  case JNull
  then show ?case by (cases n) simp_all
next
  case (JBool b)
  then show ?case by (cases n) simp_all
next
  case (JNum i)
  from JNum obtain m where n: "n = Suc m" by (cases n) auto
  obtain c cs where d: "show_int i = c # cs" and c: "c = CHR ''-'' \<or> is_digit c"
    using show_int_hd[of i] by blast
  from c have "c \<notin> {CHR ''n'', CHR ''t'', CHR ''f'', CHR 0x22, CHR ''['', CHR ''{''}"
    by (auto simp: is_digit_def)
  then have "read_value (Suc m) (c # cs @ r) = read_number (c # cs @ r)" by simp
  with read_number_show_int[OF JNum.prems(2), of i] show ?case by (simp add: n d)
next
  case (JNonFinite x)
  then show ?case by (cases n) simp_all
next
  case (JStr s)
  then show ?case by (cases n) (simp_all add: quote_def read_chars_quoted)
next
  case (JArr xs)
  from JArr.prems obtain m where n: "n = Suc m"
    and ws: "sum_list (map (\<lambda>x. Suc (weight x)) xs) \<le> m"
    by (cases n) auto
  show ?case
  proof (cases "xs = []")
    case True
    then show ?thesis by (simp add: n)
  next
    case False
    obtain c cs where "JSON_stringify (hd xs) = c # cs" and c: "c \<noteq> CHR '']''"
      using JSON_stringify_hd[of "hd xs"] by blast
    with False have "hd (map JSON_stringify xs) = c # cs" by (simp add: hd_map)
    from join_hd[OF _ this, of "'',''"] False
    obtain cs' where j: "join '','' (map JSON_stringify xs) = c # cs'" by auto
    have "read_elements m (join '','' (map JSON_stringify xs) @ CHR '']'' # r)
            = Some (map nullify xs, r)"
      by (rule read_elements_stringify[OF JArr.IH False ws]) 
    then show ?thesis using c by (simp add: n j)
  qed
next
  case (JObj kvs)
  from JObj.prems obtain m where n: "n = Suc m"
    and ws: "sum_list (map (\<lambda>(k, v). Suc (weight v)) kvs) \<le> m"
    by (cases n) auto
  show ?case
  proof (cases "kvs = []")
    case True
    then show ?thesis by (simp add: n)
  next
    case False
    then obtain k v rest where kvs: "kvs = (k, v) # rest" by (cases kvs) auto
    have "hd (map (\<lambda>(k, v). quote k @ '':'' @ JSON_stringify v) kvs)
            = CHR 0x22 # concat (map escape_char k) @ [CHR 0x22] @ '':'' @ JSON_stringify v"
      by (simp add: kvs quote_def)
    from join_hd[OF _ this, of "'',''"] False
    obtain cs' where j: "join '','' (map (\<lambda>(k, v). quote k @ '':'' @ JSON_stringify v) kvs)
                           = CHR 0x22 # cs'" by auto
    have "read_members m (join '','' (map (\<lambda>(k, v). quote k @ '':'' @ JSON_stringify v) kvs)
                            @ CHR ''}'' # r)
            = Some (map (\<lambda>(k, v). (k, nullify v)) kvs, r)"
    proof (rule read_members_stringify[OF _ False ws])
      fix k v n r
      assume "(k, v) \<in> set kvs" "weight v \<le> n" "r = [] \<or> \<not> is_digit (hd r)"
      then show "read_value n (JSON_stringify v @ r) = Some (nullify v, r)"
        using JObj.IH[of "(k, v)" v n r] by simp
    qed
    then show ?thesis using j by (simp add: n)
  qed
qed

theorem read_json_stringify: "read_json (JSON_stringify v) = Some (nullify v)"
proof -
  have "weight v \<le> Suc (length (JSON_stringify v))"
    using weight_le_length[of v] by simp
  from read_value_stringify[OF this, of "[]"] show ?thesis
    by (simp add: read_json_def)
qed

lemma nullify_finite: "finite_numbers v \<Longrightarrow> nullify v = v"
proof (induction v)
  case (JArr xs)
  then show ?case by (simp add: map_idI)
next
  case (JObj kvs)
  have "map (\<lambda>(k, v). (k, nullify v)) kvs = map (\<lambda>x. x) kvs"
  proof (rule map_cong[OF refl])
    fix x assume x: "x \<in> set kvs"
    obtain k v where kv: "x = (k, v)" by (cases x)
    from JObj.prems x kv have "finite_numbers v" by auto
    with JObj.IH[OF x[unfolded kv]] have "nullify v = v" by simp
    then show "(case x of (k, v) \<Rightarrow> (k, nullify v)) = x" by (simp add: kv)
  qed
  then show ?case by simp
qed simp_all

section \<open>Properties of the collector\<close>

lemma validateEntry_JObj:
  "validateEntry (JObj kvs) = None \<longleftrightarrow>
     (\<exists>l m h. map_of kvs ''location'' = Some (JStr l) \<and> l \<noteq> []
        \<and> map_of kvs ''message'' = Some (JStr m) \<and> m \<noteq> []
        \<and> map_of kvs ''hypothesisId'' = Some (JStr h) \<and> h \<noteq> [])"
  by (auto simp: validateEntry_def typeof_string_iff)

lemma validateEntry_not_obj:
  "validateEntry JNull \<noteq> None" "validateEntry (JBool b) \<noteq> None"
  "validateEntry (JNum n) \<noteq> None" "validateEntry (JNonFinite x) \<noteq> None"
  "validateEntry (JStr s) \<noteq> None" "validateEntry (JArr xs) \<noteq> None"
  by (simp_all add: validateEntry_def)

lemma validateEntry_None_obj:
  assumes "validateEntry entry = None"
  obtains kvs where "entry = JObj kvs"
  using assms validateEntry_not_obj by (cases entry) auto

lemma validateEntry_needs_string:
  assumes "k \<in> {''location'', ''message'', ''hypothesisId''}"
    and "typeof (get_prop entry k) \<noteq> ''string'' \<or> get_prop entry k = Some (JStr [])"
  shows "validateEntry entry \<noteq> None"
proof
  assume v: "validateEntry entry = None"
  then obtain kvs where e: "entry = JObj kvs" by (rule validateEntry_None_obj)
  from v[unfolded e validateEntry_JObj] assms show False
    unfolding e by auto
qed

lemma status_sendJson: "status (sendJson c d) = c"
  by (simp add: sendJson_def)

lemma server_ingest_rejected:
  assumes "parseBody (JSON_parse env) b = Inr entry" and "validateEntry entry = Some err"
  shows "server env (ingest b) store = (sendJson 400 (error_reply err), store)"
  using assms by (simp add: server_def handleRequest_def ingest_def)

lemma server_ingest_unparseable:
  assumes "parseBody (JSON_parse env) b = Inl e"
  shows "server env (ingest b) store = (sendJson 400 (error_reply (message e)), store)"
  using assms by (simp add: server_def handleRequest_def ingest_def)

lemma parseBody_platform:
  "parseBody (JSON_parse (platform [JObj kvs] now fails)) (JSON_stringify (JObj kvs))
     = Inr (JObj kvs)"
  unfolding parseBody_def parse_known_def platform_def
  using JSON_stringify_JObj_nonempty[of kvs] by (simp del: JSON_stringify.simps)

text \<open>
  Claim C2.  A \<^verbatim>\<open>POST /ingest\<close> whose body \<^verbatim>\<open>JSON.parse\<close> rejects, or whose parsed
  value has no \<^verbatim>\<open>location\<close>, \<^verbatim>\<open>message\<close> or \<^verbatim>\<open>hypothesisId\<close> of type string (the
  property is missing or holds something else), is answered with status 400 and
  leaves the store as it was, so the number of its lines is unchanged.
\<close>

theorem ingest_invalid_rejected:
  assumes "(\<exists>e. parseBody (JSON_parse env) b = Inl e)
     \<or> (\<exists>entry. parseBody (JSON_parse env) b = Inr entry
          \<and> (typeof (get_prop entry ''location'') \<noteq> ''string''
             \<or> typeof (get_prop entry ''message'') \<noteq> ''string''
             \<or> typeof (get_prop entry ''hypothesisId'') \<noteq> ''string''))"
  shows "status (fst (server env (ingest b) store)) = 400
         \<and> snd (server env (ingest b) store) = store"
proof -
  from assms consider
    (unparseable) e where "parseBody (JSON_parse env) b = Inl e"
  | (incomplete) entry where "parseBody (JSON_parse env) b = Inr entry"
      and "typeof (get_prop entry ''location'') \<noteq> ''string''
             \<or> typeof (get_prop entry ''message'') \<noteq> ''string''
             \<or> typeof (get_prop entry ''hypothesisId'') \<noteq> ''string''"
    by blast
  then show ?thesis
  proof cases
    case unparseable
    from server_ingest_unparseable[OF this] show ?thesis by (simp add: status_sendJson)
  next
    case incomplete
    from incomplete(2) have "validateEntry entry \<noteq> None"
      using validateEntry_needs_string[of "''location''" entry]
        validateEntry_needs_string[of "''message''" entry]
        validateEntry_needs_string[of "''hypothesisId''" entry] by blast
    then obtain err where "validateEntry entry = Some err" by auto
    from server_ingest_rejected[OF incomplete(1) this] show ?thesis
      by (simp add: status_sendJson)
  qed
qed

theorem ingest_invalid_rejected_witness:
  "parseBody (JSON_parse (platform [entry_no_message] 1000 False))
       (JSON_stringify entry_no_message) = Inr entry_no_message
   \<and> typeof (get_prop entry_no_message ''message'') \<noteq> ''string''
   \<and> status (fst (server (platform [entry_no_message] 1000 False)
                (ingest (JSON_stringify entry_no_message)) (Some []))) = 400
   \<and> snd (server (platform [entry_no_message] 1000 False)
                (ingest (JSON_stringify entry_no_message)) (Some [])) = Some []
   \<and> parseBody (JSON_parse (platform [] 1000 False)) ''{'' = Inl SyntaxError
   \<and> status (fst (server (platform [] 1000 False) (ingest ''{'') (Some []))) = 400
   \<and> snd (server (platform [] 1000 False) (ingest ''{'') (Some [])) = Some []"
proof -
  have p: "parseBody (JSON_parse (platform [entry_no_message] 1000 False))
       (JSON_stringify entry_no_message) = Inr entry_no_message"
    unfolding entry_no_message_def by (rule parseBody_platform)
  have g: "typeof (get_prop entry_no_message ''message'') \<noteq> ''string''"
    by (simp add: entry_no_message_def)
  from p g have "(\<exists>e. parseBody (JSON_parse (platform [entry_no_message] 1000 False))
         (JSON_stringify entry_no_message) = Inl e)
     \<or> (\<exists>entry. parseBody (JSON_parse (platform [entry_no_message] 1000 False))
         (JSON_stringify entry_no_message) = Inr entry
          \<and> (typeof (get_prop entry ''location'') \<noteq> ''string''
             \<or> typeof (get_prop entry ''message'') \<noteq> ''string''
             \<or> typeof (get_prop entry ''hypothesisId'') \<noteq> ''string''))"
    by blast
  note one = ingest_invalid_rejected[OF this, of "Some []"]
  have q: "parseBody (JSON_parse (platform [] 1000 False)) ''{'' = Inl SyntaxError"
    by (simp add: parseBody_def platform_def parse_known_def)
  then have "(\<exists>e. parseBody (JSON_parse (platform [] 1000 False)) ''{'' = Inl e)
     \<or> (\<exists>entry. parseBody (JSON_parse (platform [] 1000 False)) ''{'' = Inr entry
          \<and> (typeof (get_prop entry ''location'') \<noteq> ''string''
             \<or> typeof (get_prop entry ''message'') \<noteq> ''string''
             \<or> typeof (get_prop entry ''hypothesisId'') \<noteq> ''string''))"
    by blast
  note two = ingest_invalid_rejected[OF this, of "Some []"]
  from one two p g q show ?thesis by blast
qed

text \<open>
  Claim C3, as the code has it.  When the entry is valid and the append fails
  with an I/O error, the \<^verbatim>\<open>catch\<close> around the whole \<^verbatim>\<open>/ingest\<close> branch answers with
  status 400, not with a 500-class status; the store is unchanged and the server
  goes on (\<open>server\<close> returns).
\<close>

theorem ingest_append_failure_answers_400:
  assumes "parseBody (JSON_parse env) b = Inr entry"
    and "validateEntry entry = None"
    and "append_fails env"
  shows "status (fst (server env (ingest b) store)) = 400
         \<and> snd (server env (ingest b) store) = store"
proof -
  have "\<exists>e. writeLogEntry env entry store = Inl e"
    using assms(3) by (simp add: writeLogEntry_def appendFileSync_def split: sum.splits)
  then show ?thesis using assms(1,2)
    by (auto simp: server_def handleRequest_def ingest_def status_sendJson)
qed

theorem ingest_append_failure_answers_400_witness:
  "parseBody (JSON_parse (platform [entry_A] 1000 True)) (JSON_stringify entry_A) = Inr entry_A
   \<and> validateEntry entry_A = None
   \<and> append_fails (platform [entry_A] 1000 True)
   \<and> status (fst (server (platform [entry_A] 1000 True)
                (ingest (JSON_stringify entry_A)) (Some []))) = 400
   \<and> snd (server (platform [entry_A] 1000 True)
                (ingest (JSON_stringify entry_A)) (Some [])) = Some []"
proof -
  have p: "parseBody (JSON_parse (platform [entry_A] 1000 True)) (JSON_stringify entry_A)
             = Inr entry_A"
    unfolding entry_A_def by (rule parseBody_platform)
  have v: "validateEntry entry_A = None"
    by (simp add: entry_A_def validateEntry_def)
  have f: "append_fails (platform [entry_A] 1000 True)"
    by (simp add: platform_def)
  from ingest_append_failure_answers_400[OF p v f, of "Some []"] p v f show ?thesis by blast
qed

text \<open>
  Claim C9.  A \<^verbatim>\<open>POST /ingest\<close> whose parsed entry has the empty string as its
  \<^verbatim>\<open>location\<close>, \<^verbatim>\<open>message\<close> or \<^verbatim>\<open>hypothesisId\<close> is answered with status 400 and
  appends nothing: the validation tests the field for truthiness.
\<close>

theorem ingest_rejects_empty_required_field:
  assumes "parseBody (JSON_parse env) b = Inr entry"
    and "get_prop entry ''location'' = Some (JStr [])
         \<or> get_prop entry ''message'' = Some (JStr [])
         \<or> get_prop entry ''hypothesisId'' = Some (JStr [])"
  shows "status (fst (server env (ingest b) store)) = 400
         \<and> snd (server env (ingest b) store) = store"
proof -
  from assms(2) have "validateEntry entry \<noteq> None"
    using validateEntry_needs_string[of "''location''" entry]
      validateEntry_needs_string[of "''message''" entry]
      validateEntry_needs_string[of "''hypothesisId''" entry] by blast
  then obtain err where "validateEntry entry = Some err" by auto
  from server_ingest_rejected[OF assms(1) this] show ?thesis
    by (simp add: status_sendJson)
qed

theorem ingest_rejects_empty_required_field_witness:
  "parseBody (JSON_parse (platform [entry_empty_message] 1000 False))
       (JSON_stringify entry_empty_message) = Inr entry_empty_message
   \<and> get_prop entry_empty_message ''message'' = Some (JStr [])
   \<and> status (fst (server (platform [entry_empty_message] 1000 False)
                (ingest (JSON_stringify entry_empty_message)) (Some []))) = 400
   \<and> snd (server (platform [entry_empty_message] 1000 False)
                (ingest (JSON_stringify entry_empty_message)) (Some [])) = Some []"
proof -
  have p: "parseBody (JSON_parse (platform [entry_empty_message] 1000 False))
       (JSON_stringify entry_empty_message) = Inr entry_empty_message"
    unfolding entry_empty_message_def by (rule parseBody_platform)
  have g: "get_prop entry_empty_message ''message'' = Some (JStr [])"
    by (simp add: entry_empty_message_def)
  from ingest_rejects_empty_required_field[OF p, of "Some []"] g p show ?thesis by simp
qed

lemma stamp_valid:
  assumes "validateEntry entry = None"
  obtains kvs where "entry = JObj kvs"
    and "stamp now entry =
          Inr (if truthy_prop (map_of kvs ''timestamp'') then JObj kvs
               else JObj (AList.update ''timestamp'' (JNum now) kvs))"
proof -
  from assms obtain kvs where e: "entry = JObj kvs" by (rule validateEntry_None_obj)
  show thesis by (rule that[OF e]) (simp add: e stamp_def)
qed

lemma server_ingest_written:
  assumes "parseBody (JSON_parse env) b = Inr entry" and "validateEntry entry = None"
    and "\<not> append_fails env" and "stamp (Date_now env) entry = Inr entry'"
  shows "server env (ingest b) store =
           (sendJson 200 (JObj [(''status'', JStr ''ok'')]),
            Some (store_text store @ JSON_stringify entry' @ [CHR 0x0A]))"
  using assms
  by (simp add: server_def handleRequest_def ingest_def writeLogEntry_def appendFileSync_def
        store_text_def split: option.splits)





text \<open>
  What the accepted request of the witness leaves in an empty store: the line of
  the entry with the reading of the clock as its time stamp, which reads back as
  that entry.
\<close>

lemma ingest_entry_B:
  "server (platform [entry_B] 1000 False) (ingest (JSON_stringify entry_B)) (Some [])
     = (sendJson 200 (JObj [(''status'', JStr ''ok'')]),
        Some (JSON_stringify entry_B_stamped @ [CHR 0x0A]))"
  "read_json (JSON_stringify entry_B_stamped) = Some entry_B_stamped"
proof -
  have p: "parseBody (JSON_parse (platform [entry_B] 1000 False)) (JSON_stringify entry_B)
             = Inr entry_B"
    unfolding entry_B_def by (rule parseBody_platform)
  have v: "validateEntry entry_B = None"
    by (simp add: entry_B_def validateEntry_def)
  have f: "\<not> append_fails (platform [entry_B] 1000 False)"
    by (simp add: platform_def)
  have s: "stamp (Date_now (platform [entry_B] 1000 False)) entry_B = Inr entry_B_stamped"
    by (simp add: stamp_def entry_B_def entry_B_stamped_def platform_def)
  from server_ingest_written[OF p v f s, of "Some []"]
  show "server (platform [entry_B] 1000 False) (ingest (JSON_stringify entry_B)) (Some [])
     = (sendJson 200 (JObj [(''status'', JStr ''ok'')]),
        Some (JSON_stringify entry_B_stamped @ [CHR 0x0A]))"
    by (simp add: store_text_def del: JSON_stringify.simps)
  have "nullify entry_B_stamped = entry_B_stamped" by (simp add: entry_B_stamped_def)
  with read_json_stringify[of entry_B_stamped]
  show "read_json (JSON_stringify entry_B_stamped) = Some entry_B_stamped" by simp
qed


text \<open>
  A number beyond the range of a double does not come back.  The body below is
  accepted, \<^verbatim>\<open>JSON.parse\<close> reads its \<^verbatim>\<open>data\<close> as \<^verbatim>\<open>Infinity\<close>, \<^verbatim>\<open>JSON.stringify\<close> writes
  that as \<^verbatim>\<open>null\<close>, and the line reads back with \<^verbatim>\<open>null\<close> as its \<^verbatim>\<open>data\<close>.
\<close>

lemma ingest_writes_overflow_as_null:
  "server (platform_reading body_overflow entry_overflow 2000) (ingest body_overflow) (Some [])
     = (sendJson 200 (JObj [(''status'', JStr ''ok'')]),
        Some (JSON_stringify entry_overflow @ [CHR 0x0A]))
   \<and> read_json (JSON_stringify entry_overflow) = Some entry_overflow_read
   \<and> get_prop entry_overflow ''data'' = Some (JNonFinite PosInfinity)
   \<and> get_prop entry_overflow_read ''data'' = Some JNull"
proof -
  have p: "parseBody (JSON_parse (platform_reading body_overflow entry_overflow 2000))
             body_overflow = Inr entry_overflow"
    by (simp add: parseBody_def platform_reading_def body_overflow_def)
  have v: "validateEntry entry_overflow = None"
    by (simp add: entry_overflow_def validateEntry_def)
  have f: "\<not> append_fails (platform_reading body_overflow entry_overflow 2000)"
    by (simp add: platform_reading_def)
  have s: "stamp (Date_now (platform_reading body_overflow entry_overflow 2000)) entry_overflow
             = Inr entry_overflow"
    by (simp add: stamp_def entry_overflow_def)
  have "nullify entry_overflow = entry_overflow_read"
    by (simp add: entry_overflow_def entry_overflow_read_def)
  with read_json_stringify[of entry_overflow]
  have k: "read_json (JSON_stringify entry_overflow) = Some entry_overflow_read" by simp
  from server_ingest_written[OF p v f s, of "Some []"] k show ?thesis
    by (simp add: store_text_def entry_overflow_def entry_overflow_read_def
          del: JSON_stringify.simps)
qed

section \<open>Properties of clearing the store\<close>

text \<open>
  Claim C8, as the code has it.  When the store file exists and \<^verbatim>\<open>writeFileSync\<close>
  succeeds, clearing leaves the file existing and empty with exit status 0, and
  clearing again does the same.  When the file exists and the write fails, the
  script exits with status 1 and leaves the file as it was.  When the file is
  absent, clearing exits with status 0 and creates nothing.
\<close>

theorem clear_logs_idempotent:
  "(\<forall>c. store = Some c \<longrightarrow>
       clear_logs False store = (Some [], 0)
     \<and> clear_logs False (fst (clear_logs False store)) = (Some [], 0)
     \<and> clear_logs True store = (store, 1))
   \<and> (store = None \<longrightarrow> clear_logs write_fails store = (None, 0))"
  by (simp add: clear_logs_def)

theorem clear_logs_idempotent_witness:
  "clear_logs False (Some ''x'') = (Some [], 0)
   \<and> clear_logs False (fst (clear_logs False (Some ''x''))) = (Some [], 0)
   \<and> clear_logs True (Some ''x'') = (Some ''x'', 1)
   \<and> clear_logs True None = (None, 0)"
  using clear_logs_idempotent[of "Some ''x''" True] clear_logs_idempotent[of None True]
  by blast

text \<open>
  The claim as the spec words it promises exit status 0 and an empty store for
  every initial state.  On a store that exists and cannot be written (a read-only
  file, say) the script reports the failure: it exits with status 1 and the store
  keeps its content.
\<close>

theorem clear_logs_unwritable_store:
  "clear_logs True (Some ''x'') = (Some ''x'', 1)
   \<and> fst (clear_logs True (Some ''x'')) \<noteq> Some []
   \<and> snd (clear_logs True (Some ''x'')) \<noteq> 0"
  by (simp add: clear_logs_def)

section \<open>Properties of the analyzer\<close>

subsection \<open>Steps that may throw\<close>

lemma and_then_simps [simp]: "and_then (Inl e) f = Inl e" "and_then (Inr x) f = f x"
  by (simp_all add: and_then_def)

lemma and_then_Inr_iff: "and_then r f = Inr y \<longleftrightarrow> (\<exists>x. r = Inr x \<and> f x = Inr y)"
  by (cases r) simp_all

lemma and_then_TypeError:
  assumes "\<And>e. r = Inl e \<Longrightarrow> e = TypeError" and "\<And>x e. r = Inr x \<Longrightarrow> f x = Inl e \<Longrightarrow> e = TypeError"
    and "and_then r f = Inl e"
  shows "e = TypeError"
  using assms by (cases r) auto

lemma toKey_simps [simp]:
  "toKey JNull = Inr ''null''" "toKey (JStr s) = Inr s" "toKey (JNum n) = Inr (show_int n)"
  "toKey (JBool b) = Inr (if b then ''true'' else ''false'')"
  by (simp_all add: toKey_def)

lemma toKey_Inr_iff: "(\<exists>k. toKey v = Inr k) \<longleftrightarrow> convertible v"
  by (simp add: toKey_def)

lemma toKey_Inl: "toKey v = Inl e \<Longrightarrow> e = TypeError \<and> \<not> convertible v"
  by (auto simp: toKey_def split: if_splits)

lemma key_of_Inr_iff: "(\<exists>k. key_of v = Inr k) \<longleftrightarrow> convertible_prop v"
  by (cases v) (simp_all add: toKey_def)

lemma key_of_Inl: "key_of v = Inl e \<Longrightarrow> e = TypeError \<and> \<not> convertible_prop v"
  by (cases v) (auto dest: toKey_Inl)

lemma js_less_eq:
  "js_less ar x y =
     (if convertible x \<and> convertible y
      then Inr (less_primitive ar (primitive_of x) (primitive_of y)) else Inl TypeError)"
  by (simp add: js_less_def ToPrimitive_def)

lemma js_minus_eq:
  "js_minus ar x y =
     (if convertible x \<and> convertible y
      then Inr (minus_primitive ar (primitive_of x) (primitive_of y)) else Inl TypeError)"
  by (simp add: js_minus_def ToPrimitive_def)

lemma js_less_num [simp]: "js_less ar (JNum a) (JNum b) = Inr (a < b)"
  by (simp add: js_less_eq)

lemma js_less_Inr: "js_less ar x y = Inr b \<Longrightarrow> convertible x \<and> convertible y"
  by (simp add: js_less_eq split: if_splits)

lemma js_less_Inl: "js_less ar x y = Inl e \<Longrightarrow> e = TypeError"
  by (simp add: js_less_eq split: if_splits)

lemma convertible_time_of:
  "convertible (time_of now e) \<longleftrightarrow> convertible_prop (get_prop e ''timestamp'')"
proof (cases "get_prop e ''timestamp''")
  case None
  then show ?thesis by (simp add: time_of_def)
next
  case (Some v)
  then show ?thesis by (cases v) (simp_all add: time_of_def)
qed

lemma convertible_level_of:
  "convertible (level_of e) \<longleftrightarrow> convertible_prop (get_prop e ''level'')"
proof (cases "get_prop e ''level''")
  case None
  then show ?thesis by (simp add: level_of_def)
next
  case (Some v)
  then show ?thesis by (cases v) (simp_all add: level_of_def)
qed

lemma lower_eq:
  "lower ar bound ts =
     (if truthy bound \<and> \<not> (convertible ts \<and> convertible bound) then Inl TypeError
      else Inr (if \<not> truthy bound \<or> less_primitive ar (primitive_of ts) (primitive_of bound)
                then ts else bound))"
  by (simp add: lower_def js_less_eq)

lemma upper_eq:
  "upper ar bound ts =
     (if truthy bound \<and> \<not> (convertible ts \<and> convertible bound) then Inl TypeError
      else Inr (if \<not> truthy bound \<or> less_primitive ar (primitive_of bound) (primitive_of ts)
                then ts else bound))"
  by (auto simp: upper_def js_less_eq)

subsection \<open>One step of the loop\<close>

lemma update_group_Inr_cases:
  assumes "update_group ar h ts e = Inr h'"
  obtains lv loc where "convertible ts" and "convertible (firstTimestamp h)"
    and "convertible (lastTimestamp h)"
    and "toKey (level_of e) = Inr lv" and "key_of (get_prop e ''location'') = Inr loc"
    and "h' = \<lparr>count = count h + 1,
            levels = bump (levels h) lv,
            locations = bump (locations h) loc,
            errors = (if level_of e = JStr ''error'' then errors h @ [errorInfo_of ts e]
                      else errors h),
            firstTimestamp =
              (if less_primitive ar (primitive_of ts) (primitive_of (firstTimestamp h))
               then ts else firstTimestamp h),
            lastTimestamp =
              (if less_primitive ar (primitive_of (lastTimestamp h)) (primitive_of ts)
               then ts else lastTimestamp h)\<rparr>"
  using assms
  by (auto simp: update_group_def and_then_Inr_iff js_less_eq split: if_splits)

lemma update_group_Inl: "update_group ar h ts e = Inl x \<Longrightarrow> x = TypeError"
  by (auto simp: update_group_def js_less_eq and_then_def
      split: if_splits sum.splits dest: toKey_Inl key_of_Inl)

lemma update_group_returns:
  assumes "convertible ts" and "convertible (firstTimestamp h)" and "convertible (lastTimestamp h)"
    and "convertible (level_of e)" and "convertible_prop (get_prop e ''location'')"
  shows "\<exists>h'. update_group ar h ts e = Inr h'"
proof -
  from assms(4) obtain lv where "toKey (level_of e) = Inr lv" by (simp add: toKey_def)
  moreover from assms(5) obtain loc where "key_of (get_prop e ''location'') = Inr loc"
    using key_of_Inr_iff by blast
  ultimately show ?thesis using assms(1-3) by (simp add: update_group_def js_less_eq)
qed

lemma update_group_throws:
  assumes "\<not> convertible ts \<or> \<not> convertible (level_of e)
           \<or> \<not> convertible_prop (get_prop e ''location'')"
  shows "update_group ar h ts e = Inl TypeError"
proof (cases "update_group ar h ts e")
  case (Inl x)
  with update_group_Inl[OF Inl] show ?thesis by simp
next
  case (Inr h')
  then show ?thesis
  proof (cases rule: update_group_Inr_cases)
    case (1 lv loc)
    with assms toKey_Inr_iff[of "level_of e"] key_of_Inr_iff[of "get_prop e ''location''"]
    show ?thesis by auto
  qed
qed

lemma group_for_Inl: "group_for hs k ts = Inl x \<Longrightarrow> x = TypeError"
  by (auto simp: group_for_def split: option.splits if_splits)

lemma analyzeEntry_Inr_cases:
  assumes "analyzeEntry ar now f e a = Inr a'"
  obtains (skip) "skipped f e" and "a' = a"
  | (keep) first last k h h' where "\<not> skipped f e" and "e \<noteq> JNull"
      and "lower ar (timeRange_first a) (time_of now e) = Inr first"
      and "upper ar (timeRange_last a) (time_of now e) = Inr last"
      and "key_of (get_prop e ''hypothesisId'') = Inr k"
      and "group_for (hypotheses a) k (time_of now e) = Inr h"
      and "update_group ar h (time_of now e) e = Inr h'"
      and "a' = \<lparr>total = total a + 1,
               timeRange_first = first,
               timeRange_last = last,
               timeRange_duration = timeRange_duration a,
               hypotheses = AList.update k h' (hypotheses a),
               all_errors =
                 (if level_of e = JStr ''error''
                  then all_errors a @ [tagged_of (time_of now e) e]
                  else all_errors a)\<rparr>"
proof (cases "skipped f e")
  case True
  with assms have "a' = a" by (simp add: analyzeEntry_def split: if_splits)
  with True show thesis by (rule skip)
next
  case False
  from assms have nn: "e \<noteq> JNull" by (auto simp: analyzeEntry_def)
  from assms False nn obtain first last k h h'
    where 1: "lower ar (timeRange_first a) (time_of now e) = Inr first"
      and 2: "upper ar (timeRange_last a) (time_of now e) = Inr last"
      and 3: "key_of (get_prop e ''hypothesisId'') = Inr k"
      and 4: "group_for (hypotheses a) k (time_of now e) = Inr h"
      and 5: "update_group ar h (time_of now e) e = Inr h'"
      and 6: "a' = \<lparr>total = total a + 1,
               timeRange_first = first,
               timeRange_last = last,
               timeRange_duration = timeRange_duration a,
               hypotheses = AList.update k h' (hypotheses a),
               all_errors =
                 (if level_of e = JStr ''error''
                  then all_errors a @ [tagged_of (time_of now e) e]
                  else all_errors a)\<rparr>"
    by (auto simp: analyzeEntry_def and_then_Inr_iff)
  show thesis by (rule keep[OF False nn 1 2 3 4 5 6])
qed

lemma analyzeEntry_Inl: "analyzeEntry ar now f e a = Inl x \<Longrightarrow> x = TypeError"
  by (auto simp: analyzeEntry_def lower_eq upper_eq and_then_def
      split: if_splits sum.splits dest: key_of_Inl group_for_Inl update_group_Inl)


subsection \<open>Runs that return\<close>

lemma settled_empty: "settled empty_analysis"
  by (simp add: settled_def empty_analysis_def)

lemma list_all_update:
  "list_all P m \<Longrightarrow> P (k, v) \<Longrightarrow> list_all P (AList.update k v m)"
  by (induction m) auto

lemma map_of_list_all: "list_all P m \<Longrightarrow> map_of m k = Some v \<Longrightarrow> P (k, v)"
  by (induction m) (auto split: if_splits)

lemma group_for_settled:
  assumes "list_all settled_group hs" and "group_for hs k ts = Inr h" and "convertible ts"
  shows "settled_group (k, h)"
proof (cases "map_of hs k")
  case None
  with assms(2,3) show ?thesis
    by (auto simp: group_for_def settled_group_def new_group_def split: if_splits)
next
  case (Some g)
  with assms(2) have "g = h" by (simp add: group_for_def)
  with map_of_list_all[OF assms(1) Some] show ?thesis by simp
qed

lemma analyzeEntry_settled:
  assumes "settled a" and "analyzeEntry ar now f e a = Inr a'"
  shows "settled a'"
  using assms(2)
proof (cases rule: analyzeEntry_Inr_cases)
  case skip
  with assms(1) show ?thesis by simp
next
  case (keep first last k h h')
  from assms(1) have c1: "convertible (timeRange_first a)" and c2: "convertible (timeRange_last a)"
    and gs: "list_all settled_group (hypotheses a)"
    by (simp_all add: settled_def)
  from keep(7) obtain lv loc where ts: "convertible (time_of now e)"
    and h': "firstTimestamp h' = time_of now e \<or> firstTimestamp h' = firstTimestamp h"
       "lastTimestamp h' = time_of now e \<or> lastTimestamp h' = lastTimestamp h"
    by (cases rule: update_group_Inr_cases) auto
  from group_for_settled[OF gs keep(6) ts] have hk: "settled_group (k, h)" .
  with h' ts have "settled_group (k, h')" by (auto simp: settled_group_def)
  from list_all_update[OF gs this] have g': "list_all settled_group (hypotheses a')"
    by (simp add: keep(8))
  from keep(3) ts c1 have f: "convertible first"
    by (auto simp: lower_eq split: if_splits)
  from keep(4) ts c2 have l: "convertible last"
    by (auto simp: upper_eq split: if_splits)
  from f l g' show ?thesis by (simp add: settled_def keep(8))
qed

lemma analyzeEntry_returns:
  assumes "settled a" and "e \<noteq> JNull" and "skipped f e \<or> analyzable e"
  shows "\<exists>a'. analyzeEntry ar now f e a = Inr a'"
proof (cases "skipped f e")
  case True
  with assms(2) show ?thesis by (simp add: analyzeEntry_def)
next
  case False
  with assms(3) have an: "analyzable e" by simp
  from assms(1) have c1: "convertible (timeRange_first a)" and c2: "convertible (timeRange_last a)"
    and gs: "list_all settled_group (hypotheses a)"
    by (simp_all add: settled_def)
  from an have ts: "convertible (time_of now e)" by (simp add: analyzable_def convertible_time_of)
  from an obtain k where k: "key_of (get_prop e ''hypothesisId'') = Inr k" "proto_text k = None"
    by (auto simp: analyzable_def plain_key_def split: sum.splits)
  from k(2) have "\<exists>h. group_for (hypotheses a) k (time_of now e) = Inr h"
    by (cases "map_of (hypotheses a) k") (simp_all add: group_for_def)
  then obtain h where h: "group_for (hypotheses a) k (time_of now e) = Inr h" ..
  from group_for_settled[OF gs h ts]
  have "convertible (firstTimestamp h)" "convertible (lastTimestamp h)"
    by (simp_all add: settled_group_def)
  from update_group_returns[OF ts this, of e ar] an
  obtain h' where "update_group ar h (time_of now e) e = Inr h'"
    by (auto simp: analyzable_def)
  with False assms(2) ts c1 c2 k(1) h show ?thesis
    by (simp add: analyzeEntry_def lower_eq upper_eq)
qed

lemma analyzeEntry_analyzable:
  assumes "settled a" and "analyzeEntry ar now f e a = Inr a'"
  shows "e \<noteq> JNull \<and> (skipped f e \<or> analyzable e)"
  using assms(2)
proof (cases rule: analyzeEntry_Inr_cases)
  case skip
  with assms(2) show ?thesis by (auto simp: analyzeEntry_def)
next
  case (keep first last k h h')
  from assms(1) have gs: "list_all settled_group (hypotheses a)" by (simp add: settled_def)
  from keep(7) obtain lv loc where ts: "convertible (time_of now e)"
    and lv: "toKey (level_of e) = Inr lv" and loc: "key_of (get_prop e ''location'') = Inr loc"
    by (cases rule: update_group_Inr_cases) auto
  from group_for_settled[OF gs keep(6) ts] have "proto_text k = None"
    by (simp add: settled_group_def)
  with keep(5) have "plain_key (key_of (get_prop e ''hypothesisId''))"
    by (simp add: plain_key_def)
  moreover from lv have "convertible (level_of e)" using toKey_Inr_iff by blast
  moreover from loc have "convertible_prop (get_prop e ''location'')"
    using key_of_Inr_iff by blast
  ultimately show ?thesis using keep(2) ts
    by (simp add: analyzable_def convertible_time_of)
qed

lemma analyzeLoop_settled:
  assumes "settled a" and "analyzeLoop ar now f i es a = Inr a'"
  shows "settled a'"
  using assms
proof (induction es arbitrary: i a)
  case Nil
  then show ?case by simp
next
  case (Cons e es)
  from Cons.prems(2) obtain a1 where s: "analyzeEntry ar (now i) f e a = Inr a1"
    and l: "analyzeLoop ar now f (Suc i) es a1 = Inr a'"
    by (auto split: sum.splits)
  from Cons.IH[OF analyzeEntry_settled[OF Cons.prems(1) s] l] show ?case .
qed

lemma analyzeLoop_returns_iff:
  assumes "settled a"
  shows "(\<exists>a'. analyzeLoop ar now f i es a = Inr a')
     \<longleftrightarrow> (\<forall>e\<in>set es. e \<noteq> JNull \<and> (skipped f e \<or> analyzable e))"
  using assms
proof (induction es arbitrary: i a)
  case Nil
  show ?case by simp
next
  case (Cons e es)
  show ?case
  proof (cases "analyzeEntry ar (now i) f e a")
    case (Inl x)
    with analyzeEntry_returns[OF Cons.prems, of e f ar "now i"] show ?thesis by auto
  next
    case (Inr a1)
    from analyzeEntry_settled[OF Cons.prems Inr] have "settled a1" .
    from Cons.IH[OF this, of "Suc i"] analyzeEntry_analyzable[OF Cons.prems Inr] Inr
    show ?thesis by simp
  qed
qed

lemma analyzeLoop_Inl: "analyzeLoop ar now f i es a = Inl x \<Longrightarrow> x = TypeError"
proof (induction es arbitrary: i a)
  case Nil
  then show ?case by simp
next
  case (Cons e es)
  then show ?case by (auto split: sum.splits dest: analyzeEntry_Inl)
qed

lemma with_duration_returns:
  assumes "settled a"
  shows "\<exists>d. with_duration ar a = Inr (a\<lparr>timeRange_duration := d\<rparr>)"
proof (cases "truthy (timeRange_first a) \<and> truthy (timeRange_last a)")
  case True
  with assms show ?thesis by (auto simp: with_duration_def js_minus_eq settled_def)
next
  case False
  then show ?thesis
    by (intro exI[of _ "timeRange_duration a"]) (auto simp: with_duration_def)
qed

lemma with_duration_Inr:
  assumes "with_duration ar a = Inr r"
  shows "\<exists>d. r = a\<lparr>timeRange_duration := d\<rparr>"
proof (cases "truthy (timeRange_first a) \<and> truthy (timeRange_last a)")
  case True
  with assms show ?thesis by (auto simp: with_duration_def and_then_Inr_iff)
next
  case False
  with assms show ?thesis
    by (intro exI[of _ "timeRange_duration a"]) (auto simp: with_duration_def)
qed

lemma analyzeEntries_Inr_cases:
  assumes "analyzeEntries ar now es f = Inr r"
  obtains a d where "analyzeLoop ar now f 0 es empty_analysis = Inr a"
    and "r = a\<lparr>timeRange_duration := d\<rparr>"
  using assms with_duration_Inr
  by (fastforce simp: analyzeEntries_def and_then_Inr_iff)

text \<open>
  A run returns a report exactly when no entry is \<^verbatim>\<open>null\<close> and every entry that the
  filter retains is analyzable, whatever the clock reads; otherwise it ends with
  a \<^verbatim>\<open>TypeError\<close>.
\<close>

lemma analyzeEntries_returns_iff:
  "(\<exists>r. analyzeEntries ar now es f = Inr r)
     \<longleftrightarrow> (\<forall>e\<in>set es. e \<noteq> JNull \<and> (skipped f e \<or> analyzable e))"
proof
  assume "\<exists>r. analyzeEntries ar now es f = Inr r"
  then obtain a where "analyzeLoop ar now f 0 es empty_analysis = Inr a"
    by (auto elim: analyzeEntries_Inr_cases)
  with analyzeLoop_returns_iff[OF settled_empty, of ar now f 0 es]
  show "\<forall>e\<in>set es. e \<noteq> JNull \<and> (skipped f e \<or> analyzable e)" by blast
next
  assume "\<forall>e\<in>set es. e \<noteq> JNull \<and> (skipped f e \<or> analyzable e)"
  with analyzeLoop_returns_iff[OF settled_empty, of ar now f 0 es]
  obtain a where a: "analyzeLoop ar now f 0 es empty_analysis = Inr a" by blast
  from with_duration_returns[OF analyzeLoop_settled[OF settled_empty a], of ar] a
  show "\<exists>r. analyzeEntries ar now es f = Inr r"
    by (auto simp: analyzeEntries_def)
qed

lemma analyzeEntries_returns:
  assumes "\<forall>e\<in>set es. e \<noteq> JNull \<and> (skipped f e \<or> analyzable e)"
  shows "\<exists>r. analyzeEntries ar now es f = Inr r"
  using assms analyzeEntries_returns_iff by blast

lemma analyzeEntries_Inl: 
  assumes "analyzeEntries ar now es f = Inl x"
  shows "x = TypeError"
proof (cases "analyzeLoop ar now f 0 es empty_analysis")
  case (Inl y)
  with assms analyzeLoop_Inl[OF Inl] show ?thesis by (simp add: analyzeEntries_def)
next
  case (Inr a)
  from with_duration_returns[OF analyzeLoop_settled[OF settled_empty Inr], of ar] Inr assms
  show ?thesis by (auto simp: analyzeEntries_def)
qed


subsection \<open>The clock\<close>

lemma time_of_truthy:
  "truthy_prop (get_prop e ''timestamp'') \<Longrightarrow> time_of n1 e = time_of n2 e"
  by (auto simp: time_of_def split: option.splits)

lemma analyzeEntry_clock:
  assumes "skipped f e \<or> truthy_prop (get_prop e ''timestamp'')"
  shows "analyzeEntry ar n1 f e a = analyzeEntry ar n2 f e a"
proof (cases "skipped f e")
  case True
  then show ?thesis by (simp add: analyzeEntry_def)
next
  case False
  with assms have "time_of n1 e = time_of n2 e" by (simp add: time_of_truthy)
  then show ?thesis by (simp add: analyzeEntry_def)
qed

lemma analyzeLoop_clock:
  assumes "\<forall>e\<in>set es. skipped f e \<or> truthy_prop (get_prop e ''timestamp'')"
  shows "analyzeLoop ar now1 f i es a = analyzeLoop ar now2 f j es a"
  using assms
proof (induction es arbitrary: i j a)
  case Nil
  show ?case by simp
next
  case (Cons e es)
  from Cons.prems have "analyzeEntry ar (now1 i) f e a = analyzeEntry ar (now2 j) f e a"
    by (simp add: analyzeEntry_clock)
  moreover from Cons
  have "\<And>a'. analyzeLoop ar now1 f (Suc i) es a' = analyzeLoop ar now2 f (Suc j) es a'"
    by simp
  ultimately show ?case by (simp split: sum.splits)
qed

subsection \<open>A report without its time stamps\<close>

lemma untimed_eq_iff:
  "untimed a1 = untimed a2 \<longleftrightarrow>
     total a1 = total a2
     \<and> map (\<lambda>(k, h). (k, untimed_group h)) (hypotheses a1)
         = map (\<lambda>(k, h). (k, untimed_group h)) (hypotheses a2)
     \<and> map untimed_tagged (all_errors a1) = map untimed_tagged (all_errors a2)"
  by (auto simp: untimed_def)

lemma untimed_group_eq_iff:
  "untimed_group h1 = untimed_group h2 \<longleftrightarrow>
     count h1 = count h2 \<and> levels h1 = levels h2 \<and> locations h1 = locations h2
     \<and> map untimed_error (errors h1) = map untimed_error (errors h2)"
  by (auto simp: untimed_group_def)

lemma untimed_duration: "untimed (a\<lparr>timeRange_duration := d\<rparr>) = untimed a"
  by (simp add: untimed_def)

lemma map_update_values:
  "map (\<lambda>(k, h). (k, g h)) (AList.update k v m)
     = AList.update k (g v) (map (\<lambda>(k, h). (k, g h)) m)"
  by (induction m) auto

lemma map_of_map_values:
  "map_of (map (\<lambda>(k, h). (k, g h)) m) k = map_option g (map_of m k)"
  by (induction m) auto

lemma group_for_untimed:
  assumes "map (\<lambda>(k, h). (k, untimed_group h)) hs1 = map (\<lambda>(k, h). (k, untimed_group h)) hs2"
    and "group_for hs1 k t1 = Inr h1" and "group_for hs2 k t2 = Inr h2"
  shows "untimed_group h1 = untimed_group h2"
proof -
  from assms(1) have eq: "map_option untimed_group (map_of hs1 k)
      = map_option untimed_group (map_of hs2 k)"
    using map_of_map_values[of untimed_group hs1 k] map_of_map_values[of untimed_group hs2 k]
    by simp
  show ?thesis
  proof (cases "map_of hs1 k")
    case None
    with eq have "map_of hs2 k = None" by simp
    with None assms(2,3) show ?thesis
      by (auto simp: group_for_def untimed_group_def new_group_def split: if_splits)
  next
    case (Some g1)
    with eq obtain g2 where "map_of hs2 k = Some g2" "untimed_group g1 = untimed_group g2"
      by (cases "map_of hs2 k") auto
    with Some assms(2,3) show ?thesis by (simp add: group_for_def)
  qed
qed

lemma untimed_error_errorInfo_of:
  "untimed_error (errorInfo_of t1 e) = untimed_error (errorInfo_of t2 e)"
  by (simp add: untimed_error_def errorInfo_of_def)

lemma untimed_tagged_tagged_of:
  "untimed_tagged (tagged_of t1 e) = untimed_tagged (tagged_of t2 e)"
  by (simp add: untimed_tagged_def tagged_of_def)

lemma update_group_untimed:
  assumes "update_group ar h1 t1 e = Inr h1'" and "update_group ar h2 t2 e = Inr h2'"
    and "untimed_group h1 = untimed_group h2"
  shows "untimed_group h1' = untimed_group h2'"
  using assms(1)
proof (cases rule: update_group_Inr_cases)
  case one: (1 lv1 loc1)
  from assms(2) show ?thesis
  proof (cases rule: update_group_Inr_cases)
    case two: (1 lv2 loc2)
    from one(4) two(4) have lv: "lv1 = lv2" by simp
    from one(5) two(5) have loc: "loc1 = loc2" by simp
    from assms(3) show ?thesis
      unfolding untimed_group_eq_iff one(6) two(6) lv loc
      using untimed_error_errorInfo_of[of t1 e t2] by simp
  qed
qed

lemma analyzeEntry_untimed:
  assumes "analyzeEntry ar n1 f e a1 = Inr a1'" and "analyzeEntry ar n2 f e a2 = Inr a2'"
    and "untimed a1 = untimed a2"
  shows "untimed a1' = untimed a2'"
  using assms(1)
proof (cases rule: analyzeEntry_Inr_cases)
  case skip
  with assms(2) have "a2' = a2" by (simp add: analyzeEntry_def split: if_splits)
  with skip assms(3) show ?thesis by simp
next
  case one: (keep first1 last1 k1 h1 h1')
  from assms(2) show ?thesis
  proof (cases rule: analyzeEntry_Inr_cases)
    case skip
    with one(1) show ?thesis by simp
  next
    case two: (keep first2 last2 k2 h2 h2')
    from one(5) two(5) have k: "k1 = k2" by simp
    from assms(3) have t: "total a1 = total a2"
      and hs: "map (\<lambda>(k, h). (k, untimed_group h)) (hypotheses a1)
                = map (\<lambda>(k, h). (k, untimed_group h)) (hypotheses a2)"
      and es: "map untimed_tagged (all_errors a1) = map untimed_tagged (all_errors a2)"
      by (simp_all add: untimed_eq_iff)
    from group_for_untimed[OF hs one(6) two(6)[folded k]]
    have "untimed_group h1 = untimed_group h2" .
    from update_group_untimed[OF one(7) two(7) this]
    have h': "untimed_group h1' = untimed_group h2'" .
    show ?thesis
      unfolding untimed_eq_iff one(8) two(8)
      using t hs es h' untimed_tagged_tagged_of[of "time_of n1 e" e "time_of n2 e"]
      by (simp add: map_update_values k)
  qed
qed

lemma analyzeLoop_untimed:
  assumes "analyzeLoop ar now1 f i es a1 = Inr a1'" and "analyzeLoop ar now2 f j es a2 = Inr a2'"
    and "untimed a1 = untimed a2"
  shows "untimed a1' = untimed a2'"
  using assms
proof (induction es arbitrary: i j a1 a2)
  case Nil
  then show ?case by simp
next
  case (Cons e es)
  from Cons.prems(1) obtain b1 where s1: "analyzeEntry ar (now1 i) f e a1 = Inr b1"
    and l1: "analyzeLoop ar now1 f (Suc i) es b1 = Inr a1'"
    by (auto split: sum.splits)
  from Cons.prems(2) obtain b2 where s2: "analyzeEntry ar (now2 j) f e a2 = Inr b2"
    and l2: "analyzeLoop ar now2 f (Suc j) es b2 = Inr a2'"
    by (auto split: sum.splits)
  from Cons.IH[OF l1 l2 analyzeEntry_untimed[OF s1 s2 Cons.prems(3)]] show ?case .
qed

text \<open>
  Two runs over the same entries end alike, whatever their clocks read: both
  with a \<^verbatim>\<open>TypeError\<close>, or both with a report, and the two reports differ in their
  time stamps at most.
\<close>

lemma analyzeEntries_untimed:
  "untimed_result (analyzeEntries ar now1 es f) = untimed_result (analyzeEntries ar now2 es f)"
proof (cases "\<forall>e\<in>set es. e \<noteq> JNull \<and> (skipped f e \<or> analyzable e)")
  case True
  from analyzeEntries_returns[OF True, of ar now1] obtain r1
    where r1: "analyzeEntries ar now1 es f = Inr r1" ..
  from analyzeEntries_returns[OF True, of ar now2] obtain r2
    where r2: "analyzeEntries ar now2 es f = Inr r2" ..
  from r1 obtain a1 d1 where a1: "analyzeLoop ar now1 f 0 es empty_analysis = Inr a1"
    and d1: "r1 = a1\<lparr>timeRange_duration := d1\<rparr>" by (rule analyzeEntries_Inr_cases)
  from r2 obtain a2 d2 where a2: "analyzeLoop ar now2 f 0 es empty_analysis = Inr a2"
    and d2: "r2 = a2\<lparr>timeRange_duration := d2\<rparr>" by (rule analyzeEntries_Inr_cases)
  from analyzeLoop_untimed[OF a1 a2] have "untimed a1 = untimed a2" by simp
  then show ?thesis by (simp add: r1 r2 d1 d2 untimed_result_def untimed_duration)
next
  case False
  with analyzeEntries_returns_iff[of ar now1 es f] analyzeEntries_returns_iff[of ar now2 es f]
  obtain x1 x2 where x: "analyzeEntries ar now1 es f = Inl x1" "analyzeEntries ar now2 es f = Inl x2"
    by (cases "analyzeEntries ar now1 es f"; cases "analyzeEntries ar now2 es f") auto
  from analyzeEntries_Inl[OF x(1)] analyzeEntries_Inl[OF x(2)] x show ?thesis
    by (simp add: untimed_result_def)
qed

subsection \<open>Runs on concrete stores\<close>

lemma parseLogFile_store_B: "parseLogFile (parse_known [entry_B]) store_B = [entry_B]"
  by (simp add: store_B_def parseLogFile_def trim_def is_space_def parse_known_def entry_B_def
      quote_def escape_char_def List.map_filter_def)


lemma show_int_1000: "show_int 1000 = ''1000''"
  by (simp add: show_int_def digits.simps digit_char_def)

lemma parseLogFile_store_B_stamped:
  "parseLogFile (parse_known [entry_B_stamped]) store_B_stamped = [entry_B_stamped]"
  by (simp add: store_B_stamped_def parseLogFile_def trim_def is_space_def parse_known_def
      entry_B_stamped_def quote_def escape_char_def List.map_filter_def show_int_1000)


lemma parseLogFile_store_toString:
  "parseLogFile (parse_known [entry_toString]) store_toString = [entry_toString]"
  by (simp add: store_toString_def parseLogFile_def trim_def is_space_def parse_known_def
      entry_toString_def quote_def escape_char_def List.map_filter_def show_int_1000)

lemma proto_text_plain:
  "proto_text ''A'' = None" "proto_text ''B'' = None" "proto_text ''5'' = None"
  "proto_text ''a.js:f'' = None" "proto_text ''info'' = None"
  by (simp_all add: proto_text_def)

lemma proto_text_toString:
  "proto_text ''toString'' = Some ''function toString() { [native code] }''"
  by (simp add: proto_text_def)

lemma safe_small: "safe 0" "safe 1000" "safe 2000"
  by (simp_all add: safe_def)

lemma js_minus_num: "safe a \<Longrightarrow> safe b \<Longrightarrow> safe (a - b) \<Longrightarrow> js_minus ar (JNum a) (JNum b) = Inr (JNum (a - b))"
  by (simp add: js_minus_eq)

lemma analyzeEntry_B:
  "\<not> skipped f entry_B \<Longrightarrow> analyzeEntry ar t f entry_B empty_analysis = Inr (report_B t)"
  by (simp add: analyzeEntry_def entry_B_def time_of_def group_for_def empty_analysis_def
      new_group_def update_group_def level_of_def bump_def proto_text_plain lower_def upper_def
      report_B_def)

lemma with_duration_report_B: "safe t \<Longrightarrow> with_duration ar (report_B t) = Inr (report_B t)"
  by (simp add: with_duration_def report_B_def js_minus_num safe_small)

lemma analyzeEntries_B:
  "\<not> skipped f entry_B \<Longrightarrow> safe t
   \<Longrightarrow> analyzeEntries ar (steady t) [entry_B] f = Inr (report_B t)"
  by (simp add: analyzeEntries_def analyzeEntry_B with_duration_report_B steady_def)

lemma skipped_entry_B:
  "\<not> skipped None entry_B" "\<not> skipped (Some []) entry_B" "\<not> skipped (Some ''B'') entry_B"
  by (simp_all add: skipped_def entry_B_def)



lemma analyzeEntries_toString:
  "analyzeEntries ar (steady 0) [entry_toString] None = Inr report_toString"
  by (simp add: analyzeEntries_def analyzeEntry_def entry_toString_def skipped_def time_of_def
      group_for_def empty_analysis_def proto_text_plain proto_text_toString
      with_duration_def lower_def upper_def steady_def update_group_def new_group_def
      level_of_def bump_def report_toString_def js_minus_num safe_small)

text \<open>
  A time stamp that is a string is kept as it is: the run returns a report with
  that string as the bounds of the time range, and with the difference of the
  string with itself, which is \<^verbatim>\<open>NaN\<close> in JavaScript, as the duration.
\<close>

lemma analyzeEntries_yesterday:
  "analyzeEntries ar now [entry_yesterday] None = Inr (report_yesterday ar)"
  by (simp add: analyzeEntries_def analyzeEntry_def entry_yesterday_def skipped_def time_of_def
      group_for_def empty_analysis_def proto_text_plain report_yesterday_def
      with_duration_def lower_def upper_def update_group_def new_group_def
      level_of_def bump_def js_less_eq js_minus_eq)

subsection \<open>Determinism\<close>

text \<open>
  Claim C4, as the code has it.  Two runs of the analyzer over the same store
  end alike, whatever their clocks read: both with the same exception, or both
  with a report, and then the two reports have the same total, the same groups
  in the same order with the same counts and tallies, and the same errors in the
  same order; they differ in their time stamps at most.  When every entry that
  the filter retains has a truthy \<^verbatim>\<open>timestamp\<close>, the two results are the same
  altogether.  (The analyzer writes nothing: the store is no part of what it
  returns.)
\<close>

theorem analysis_independent_of_clock:
  "untimed_result (analyze_logs ar parse now1 f store)
     = untimed_result (analyze_logs ar parse now2 f store)
   \<and> ((\<forall>e\<in>set (parseLogFile parse store).
          skipped f e \<or> truthy_prop (get_prop e ''timestamp''))
      \<longrightarrow> analyze_logs ar parse now1 f store = analyze_logs ar parse now2 f store)"
proof
  show "untimed_result (analyze_logs ar parse now1 f store)
     = untimed_result (analyze_logs ar parse now2 f store)"
    unfolding analyze_logs_def by (rule analyzeEntries_untimed)
  show "(\<forall>e\<in>set (parseLogFile parse store).
          skipped f e \<or> truthy_prop (get_prop e ''timestamp''))
      \<longrightarrow> analyze_logs ar parse now1 f store = analyze_logs ar parse now2 f store"
  proof
    assume a: "\<forall>e\<in>set (parseLogFile parse store).
          skipped f e \<or> truthy_prop (get_prop e ''timestamp'')"
    show "analyze_logs ar parse now1 f store = analyze_logs ar parse now2 f store"
      unfolding analyze_logs_def analyzeEntries_def
      using analyzeLoop_clock[OF a, of ar now1 0 empty_analysis now2 0] by simp
  qed
qed

theorem analysis_independent_of_clock_witness:
  "parseLogFile (parse_known [entry_B_stamped]) store_B_stamped = [entry_B_stamped]
   \<and> truthy_prop (get_prop entry_B_stamped ''timestamp'')
   \<and> analyze_logs nan_arith (parse_known [entry_B_stamped]) (steady 1) None store_B_stamped
       = analyze_logs nan_arith (parse_known [entry_B_stamped]) (steady 2) None store_B_stamped
   \<and> untimed_result
        (analyze_logs nan_arith (parse_known [entry_B_stamped]) (steady 1) None store_B_stamped)
       = untimed_result
          (analyze_logs nan_arith (parse_known [entry_B_stamped]) (steady 2) None store_B_stamped)"
proof -
  have t: "truthy_prop (get_prop entry_B_stamped ''timestamp'')"
    by (simp add: entry_B_stamped_def)
  then have h: "\<forall>e\<in>set (parseLogFile (parse_known [entry_B_stamped]) store_B_stamped).
       skipped None e \<or> truthy_prop (get_prop e ''timestamp'')"
    unfolding parseLogFile_store_B_stamped by simp
  from analysis_independent_of_clock[of nan_arith "parse_known [entry_B_stamped]" "steady 1" None
      store_B_stamped "steady 2"] h t parseLogFile_store_B_stamped
  show ?thesis by blast
qed

text \<open>
  The claim as the spec words it covers entries without a time stamp and promises
  the same time range.  For such an entry the analyzer takes the reading of the
  clock: the reports of a run at time 1000 and of a run at time 2000 over the
  same store differ in their time ranges.
\<close>

theorem analysis_follows_clock:
  "analyze_logs nan_arith (parse_known [entry_B]) (steady 1000) None store_B
     = Inr (report_B 1000)
   \<and> analyze_logs nan_arith (parse_known [entry_B]) (steady 2000) None store_B
       = Inr (report_B 2000)
   \<and> timeRange_first (report_B 1000) = JNum 1000
   \<and> timeRange_first (report_B 2000) = JNum 2000
   \<and> analyze_logs nan_arith (parse_known [entry_B]) (steady 1000) None store_B
       \<noteq> analyze_logs nan_arith (parse_known [entry_B]) (steady 2000) None store_B"
  by (simp add: analyze_logs_def parseLogFile_store_B analyzeEntries_B skipped_entry_B
      safe_small report_B_def)


subsection \<open>The filter\<close>


lemma skipped_None: "\<not> skipped None e"
  by (simp add: skipped_def)






lemma update_group_count: "update_group ar h ts e = Inr h' \<Longrightarrow> count h' = count h + 1"
  by (erule update_group_Inr_cases) simp







subsection \<open>The invariants of a report\<close>

lemma sum_update_new:
  "map_of m k = None \<Longrightarrow> sum_list (map f (AList.update k v m)) = sum_list (map f m) + f (k, v)"
  for f :: "'a \<times> 'b \<Rightarrow> nat"
  by (induction m) (auto split: if_splits)

lemma sum_update_old:
  "map_of m k = Some v0
   \<Longrightarrow> sum_list (map f (AList.update k v m)) + f (k, v0) = sum_list (map f m) + f (k, v)"
  for f :: "'a \<times> 'b \<Rightarrow> nat"
  by (induction m) (auto split: if_splits)

lemma bump_plain_cases:
  assumes "proto_text k = None" and "all_counts m"
  obtains (new) "map_of m k = None" and "bump m k = AList.update k (Count 1) m"
  | (old) n where "map_of m k = Some (Count n)"
      and "bump m k = AList.update k (Count (n + 1)) m"
proof (cases "map_of m k")
  case None
  with assms(1) show thesis by (intro new) (simp_all add: bump_def)
next
  case (Some t)
  from map_of_list_all[OF assms(2)[unfolded all_counts_def] Some]
  obtain n where "t = Count n" by (cases t) auto
  with Some show thesis by (intro old[of n]) (simp_all add: bump_def)
qed

lemma all_counts_bump:
  assumes "proto_text k = None" and "all_counts m"
  shows "all_counts (bump m k)"
  using assms
  by (cases rule: bump_plain_cases) (use assms in \<open>simp_all add: all_counts_def list_all_update\<close>)

lemma tally_sum_bump:
  assumes "proto_text k = None" and "all_counts m"
  shows "tally_sum (bump m k) = tally_sum m + 1"
  using assms
proof (cases rule: bump_plain_cases)
  case new
  then show ?thesis by (simp add: tally_sum_def sum_update_new)
next
  case (old n)
  from sum_update_old[OF old(1),
      of "\<lambda>(k, t). case t of Count n \<Rightarrow> n | Text s \<Rightarrow> 0" "Count (n + 1)"]
  show ?thesis by (simp add: tally_sum_def old(2))
qed

lemma tally_at_bump:
  assumes "proto_text k = None" and "all_counts m"
  shows "tally_at (bump m k) k' = tally_at m k' + (if k' = k then 1 else 0)"
  using assms
  by (cases rule: bump_plain_cases) (simp_all add: tally_at_def update_conv')

lemma time_of_plain: "plain_entry e \<Longrightarrow> \<exists>t. time_of now e = JNum t"
  by (auto simp: plain_entry_def time_of_def split: option.splits json.splits)

lemma group_ok_new: "group_ok (new_group (JNum t))"
  by (simp add: group_ok_def new_group_def all_counts_def tally_sum_def tally_at_def
      stamps_in_order_def)

lemma new_group_fields: "count (new_group ts) = 0" "errors (new_group ts) = []"
  by (simp_all add: new_group_def)

lemma group_ok_update:
  assumes "group_ok h" and "plain_entry e" and "update_group ar h (time_of now e) e = Inr h'"
  shows "group_ok h'"
  using assms(3)
proof (cases rule: update_group_Inr_cases)
  case (1 lv loc)
  from assms(2) 1(4,5) have lv: "proto_text lv = None" and lc: "proto_text loc = None"
    and er: "lv = ''error'' \<Longrightarrow> level_of e = JStr ''error''"
    by (auto simp: plain_entry_def plain_key_def)
  from 1(4) have er': "level_of e = JStr ''error'' \<Longrightarrow> lv = ''error''" by auto
  from assms(1) have a1: "all_counts (levels h)" and a2: "all_counts (locations h)"
    and c1: "count h = tally_sum (levels h)" and c2: "count h = tally_sum (locations h)"
    and le: "length (errors h) = tally_at (levels h) ''error''"
    and ts: "stamps_in_order h"
    by (simp_all add: group_ok_def)
  from time_of_plain[OF assms(2)] obtain t where t: "time_of now e = JNum t" ..
  from ts obtain a b where ab: "firstTimestamp h = JNum a" "lastTimestamp h = JNum b" "a \<le> b"
    by (auto simp: stamps_in_order_def split: json.splits)
  have e': "(''error'' = lv) = (level_of e = JStr ''error'')"
    using er er' by auto
  have "length (errors h') = tally_at (levels h') ''error''"
    unfolding 1(6) by (simp add: tally_at_bump[OF lv a1] le e')
  moreover have "count h' = tally_sum (levels h')"
    unfolding 1(6) by (simp add: tally_sum_bump[OF lv a1] c1)
  moreover have "count h' = tally_sum (locations h')"
    unfolding 1(6) by (simp add: tally_sum_bump[OF lc a2] c2)
  moreover have "all_counts (levels h')"
    unfolding 1(6) by (simp add: all_counts_bump[OF lv a1])
  moreover have "all_counts (locations h')"
    unfolding 1(6) by (simp add: all_counts_bump[OF lc a2])
  moreover have "stamps_in_order h'"
    unfolding 1(6) using ab by (simp add: stamps_in_order_def t)
  ultimately show ?thesis unfolding group_ok_def by blast
qed

lemma group_for_ok:
  assumes "list_all (\<lambda>(k, h). group_ok h) hs" and "group_for hs k (JNum t) = Inr h"
  shows "group_ok h"
proof (cases "map_of hs k")
  case None
  with assms(2) show ?thesis by (auto simp: group_for_def group_ok_new split: if_splits)
next
  case (Some g)
  with assms(2) have "g = h" by (simp add: group_for_def)
  with map_of_list_all[OF assms(1) Some] show ?thesis by simp
qed

lemma group_for_sum:
  fixes F :: "group \<Rightarrow> nat"
  assumes "group_for hs k ts = Inr h"
  shows "sum_list (map (\<lambda>(k, h). F h) (AList.update k h' hs)) + F h
       = sum_list (map (\<lambda>(k, h). F h) hs) + F h'
         + F (new_group ts) * (if map_of hs k = None then 1 else 0)"
proof (cases "map_of hs k")
  case None
  with assms have "h = new_group ts" by (auto simp: group_for_def split: if_splits)
  with None sum_update_new[OF None, of "\<lambda>(k, h). F h" h'] show ?thesis by simp
next
  case (Some g)
  with assms have "g = h" by (simp add: group_for_def)
  with Some sum_update_old[OF Some, of "\<lambda>(k, h). F h" h'] show ?thesis by simp
qed

lemma update_group_errors:
  "update_group ar h ts e = Inr h'
   \<Longrightarrow> length (errors h') = length (errors h) + (if level_of e = JStr ''error'' then 1 else 0)"
  by (erule update_group_Inr_cases) simp

lemma report_ok_step:
  assumes "report_ok a" and "analyzeEntry ar now f e a = Inr a'"
    and "skipped f e \<or> plain_entry e"
  shows "report_ok a'"
  using assms(2)
proof (cases rule: analyzeEntry_Inr_cases)
  case skip
  with assms(1) show ?thesis by simp
next
  case (keep first last k h h')
  with assms(3) have pe: "plain_entry e" by simp
  from time_of_plain[OF pe] obtain t where t: "time_of now e = JNum t" ..
  from assms(1) have all: "list_all (\<lambda>(k, h). group_ok h) (hypotheses a)"
    and tot: "total a = sum_list (map (\<lambda>(k, h). count h) (hypotheses a))"
    and err: "length (all_errors a)
               = sum_list (map (\<lambda>(k, h). length (errors h)) (hypotheses a))"
    by (simp_all add: report_ok_def)
  have h: "group_ok h" by (rule group_for_ok[OF all keep(6)[unfolded t]])
  have h': "group_ok h'" by (rule group_ok_update[OF h pe keep(7)])
  from group_for_sum[OF keep(6), of count h'] update_group_count[OF keep(7)]
  have c: "sum_list (map (\<lambda>(k, h). count h) (AList.update k h' (hypotheses a)))
           = sum_list (map (\<lambda>(k, h). count h) (hypotheses a)) + 1"
    by (simp add: new_group_fields)
  from group_for_sum[OF keep(6), of "\<lambda>h. length (errors h)" h'] update_group_errors[OF keep(7)]
  have l: "sum_list (map (\<lambda>(k, h). length (errors h)) (AList.update k h' (hypotheses a)))
           = sum_list (map (\<lambda>(k, h). length (errors h)) (hypotheses a))
             + (if level_of e = JStr ''error'' then 1 else 0)"
    by (simp add: new_group_fields)
  show ?thesis
    by (simp add: report_ok_def keep(8) list_all_update all h' c l tot err)
qed

lemma report_ok_loop:
  assumes "report_ok a" and "analyzeLoop ar now f i es a = Inr a'"
    and "\<forall>e\<in>set es. skipped f e \<or> plain_entry e"
  shows "report_ok a'"
  using assms
proof (induction es arbitrary: i a)
  case Nil
  then show ?case by simp
next
  case (Cons e es)
  from Cons.prems(2) obtain a1 where s: "analyzeEntry ar (now i) f e a = Inr a1"
    and l: "analyzeLoop ar now f (Suc i) es a1 = Inr a'"
    by (auto split: sum.splits)
  from Cons.prems(3) have "skipped f e \<or> plain_entry e" by simp
  from report_ok_step[OF Cons.prems(1) s this] have "report_ok a1" .
  from Cons.IH[OF this l] Cons.prems(3) show ?case by simp
qed

text \<open>
  A run over entries that are plain (or passed over by the filter) returns a
  report in order, when it returns one.
\<close>

lemma report_invariants:
  assumes "analyzeEntries ar now es f = Inr r"
    and "\<forall>e\<in>set es. skipped f e \<or> plain_entry e"
  shows "report_ok r"
proof -
  from assms(1) obtain a d where a: "analyzeLoop ar now f 0 es empty_analysis = Inr a"
    and r: "r = a\<lparr>timeRange_duration := d\<rparr>"
    by (rule analyzeEntries_Inr_cases)
  have "report_ok empty_analysis" by (simp add: report_ok_def empty_analysis_def)
  from report_ok_loop[OF this a assms(2)] show ?thesis
    by (simp add: r report_ok_def)
qed

subsection \<open>Tallies under inherited keys\<close>

text \<open>
  Claim C10 at an input where the code departs from it.  For an entry whose
  \<^verbatim>\<open>location\<close> is \<^verbatim>\<open>toString\<close>, the read \<^verbatim>\<open>h.locations[entry.location]\<close> yields the
  function inherited from \<^verbatim>\<open>Object.prototype\<close>, which is truthy, and \<^verbatim>\<open>+ 1\<close> appends
  the character 1 to its source text.  The report has a group of count 1 whose only
  per-location tally is that text: the count is not the sum of the per-location
  counts.
\<close>

theorem inherited_location_garbles_tally:
  "analyze_logs ar (parse_known [entry_toString]) (steady 0) None store_toString
     = Inr report_toString
   \<and> map (count \<circ> snd) (hypotheses report_toString) = [1]
   \<and> map (locations \<circ> snd) (hypotheses report_toString)
       = [[(''toString'', Text ''function toString() { [native code] }1'')]]"
  by (simp add: analyze_logs_def parseLogFile_store_toString analyzeEntries_toString)
     (simp add: report_toString_def)

text \<open>
  A level that is not a string departs from the claim too.  The array
  \<^verbatim>\<open>["error"]\<close> converts to the key \<^verbatim>\<open>error\<close>, so the tally of that level is 1, but it
  is not \<^verbatim>\<open>=== 'error'\<close>, so no error is recorded.
\<close>

lemma array_level_records_no_error:
  "analyzeEntries ar (steady 0) [entry_error_array] None = Inr report_error_array
   \<and> map (levels \<circ> snd) (hypotheses report_error_array) = [[(''error'', Count 1)]]
   \<and> map (errors \<circ> snd) (hypotheses report_error_array) = [[]]"
proof -
  have k: "toKey (JArr [JStr ''error'']) = Inr ''error''" by (simp add: toKey_def)
  have p: "proto_text ''error'' = None" by (simp add: proto_text_def)
  have "analyzeEntries ar (steady 0) [entry_error_array] None = Inr report_error_array"
    by (simp add: analyzeEntries_def analyzeEntry_def entry_error_array_def skipped_def
        time_of_def group_for_def empty_analysis_def proto_text_plain p k
        with_duration_def lower_def upper_def steady_def update_group_def new_group_def
        level_of_def bump_def report_error_array_def js_minus_num safe_small)
  then show ?thesis by (simp add: report_error_array_def)
qed

section \<open>Properties of the tailer\<close>

lemma byteLength_single_byte: "single_byte s \<Longrightarrow> byteLength s = length s"
  by (induction s) (auto simp: single_byte_def byteLength_def)

lemma single_byte_append: "single_byte (a @ b) \<longleftrightarrow> single_byte a \<and> single_byte b"
  by (simp add: single_byte_def)

lemma processNewLines_append:
  "processNewLines parse f (xs @ ys) = processNewLines parse f xs @ processNewLines parse f ys"
  by (induction xs) (auto split: option.splits prod.splits)

lemma split_nl_cons_line:
  "CHR 0x0A \<notin> set l \<Longrightarrow> split_nl (l @ CHR 0x0A # r) = l # split_nl r"
  by (induction l) auto

lemma last_split_nl_no_nl: "CHR 0x0A \<notin> set (last (split_nl s))"
proof (induction s)
  case Nil
  show ?case by simp
next
  case (Cons c s)
  obtain t T where T: "split_nl s = t # T"
    using split_nl_nonempty[of s] by (cases "split_nl s") auto
  with Cons show ?case by (cases T) auto
qed

lemma split_nl_lines:
  assumes "\<forall>l\<in>set ls. CHR 0x0A \<notin> set l"
  shows "split_nl (concat (map (\<lambda>l. l @ [CHR 0x0A]) ls)) = ls @ [[]]"
  using assms by (induction ls) (simp_all add: split_nl_cons_line)

lemma split_nl_entries:
  "split_nl (concat (map line_of es)) = map JSON_stringify es @ [[]]"
  by (induction es) (simp_all add: line_of_def split_nl_cons_line JSON_stringify_no_nl)

lemma trim_nonempty: "s \<noteq> [] \<Longrightarrow> \<not> is_space (hd s) \<Longrightarrow> trim s \<noteq> []"
  by (cases s) (auto simp: trim_def dropWhile_eq_Nil_conv)

lemma trim_JSON_stringify_JObj: "trim (JSON_stringify (JObj kvs)) \<noteq> []"
  by (rule trim_nonempty) (simp_all add: is_space_def)

lemma getHypothesisColor_string: "\<exists>c. getHypothesisColor (Some (JStr h)) = Inr c"
  by (simp add: getHypothesisColor_def split: option.splits)

lemma printEntry_printable:
  assumes "printable e"
  shows "printEntry e = ([Printed e], None)"
proof -
  from assms have v: "validateEntry e = None"
    and lv: "convertible_prop (get_prop e ''level'')"
    and ts: "convertible_prop (get_prop e ''timestamp'')"
    by (simp_all add: printable_def)
  from v obtain kvs where e: "e = JObj kvs" by (rule validateEntry_None_obj)
  from v[unfolded e validateEntry_JObj] obtain l m h
    where f: "map_of kvs ''location'' = Some (JStr l)" "map_of kvs ''message'' = Some (JStr m)"
      "map_of kvs ''hypothesisId'' = Some (JStr h)" by blast
  from getHypothesisColor_string[of h] obtain c
    where c: "getHypothesisColor (Some (JStr h)) = Inr c" ..
  from lv have "convertible (level_of e)" by (simp add: convertible_level_of)
  with ts f c show ?thesis by (simp add: printEntry_def e)
qed

lemma processNewLines_entries:
  assumes "\<forall>e\<in>set es. printable e \<and> parse (JSON_stringify e) = Some e"
  shows "processNewLines parse None (map JSON_stringify es) = map Printed es"
  using assms
proof (induction es)
  case Nil
  show ?case by simp
next
  case (Cons e es)
  from Cons.prems have pe: "printable e" and p: "parse (JSON_stringify e) = Some e"
    by simp_all
  from pe have v: "validateEntry e = None" by (simp add: printable_def)
  from v obtain kvs where e: "e = JObj kvs" by (rule validateEntry_None_obj)
  have t: "trim (JSON_stringify e) \<noteq> []" unfolding e by (rule trim_JSON_stringify_JObj)
  have n: "e \<noteq> JNull" by (simp add: e)
  from Cons show ?case
    by (simp add: t p n skipped_None printEntry_printable[OF pe] del: JSON_stringify.simps)
qed

lemma readNewContent_grow:
  assumes "lastSize st = length c" and "CHR 0x0A \<notin> set (buffer st)"
    and "single_byte (c @ n)"
  shows "readNewContent parse f st (observe (Some (c @ n)))
     = (\<lparr>lastSize = length (c @ n), buffer = last (split_nl (buffer st @ n))\<rparr>,
        processNewLines parse f (butlast (split_nl (buffer st @ n))))"
proof (cases "n = []")
  case True
  with assms show ?thesis
    by (simp add: readNewContent_def observe_def byteLength_single_byte split_nl_no_nl)
next
  case False
  with assms show ?thesis
    by (simp add: readNewContent_def observe_def byteLength_single_byte Let_def)
qed

lemma tail_run_grow:
  assumes "lastSize st = length c" and "CHR 0x0A \<notin> set (buffer st)"
    and "single_byte (c @ concat ns)"
  shows "tail_run parse f st (map (\<lambda>s. observe (Some s)) (snapshots c ns))
     = (\<lparr>lastSize = length (c @ concat ns), buffer = last (split_nl (buffer st @ concat ns))\<rparr>,
        processNewLines parse f (butlast (split_nl (buffer st @ concat ns))))"
  using assms
proof (induction ns arbitrary: st c)
  case Nil
  then show ?case by (simp add: split_nl_no_nl)
next
  case (Cons n ns)
  let ?st1 = "\<lparr>lastSize = length (c @ n), buffer = last (split_nl (buffer st @ n))\<rparr>"
  from Cons.prems have sb: "single_byte (c @ n)" by (simp add: single_byte_append)
  have step: "readNewContent parse f st (observe (Some (c @ n)))
     = (?st1, processNewLines parse f (butlast (split_nl (buffer st @ n))))"
    by (rule readNewContent_grow[OF Cons.prems(1,2) sb])
  have "tail_run parse f ?st1 (map (\<lambda>s. observe (Some s)) (snapshots (c @ n) ns))
     = (\<lparr>lastSize = length ((c @ n) @ concat ns),
         buffer = last (split_nl (buffer ?st1 @ concat ns))\<rparr>,
        processNewLines parse f (butlast (split_nl (buffer ?st1 @ concat ns))))"
    by (rule Cons.IH) (use Cons.prems in \<open>simp_all add: last_split_nl_no_nl\<close>)
  moreover have "split_nl (buffer st @ n @ concat ns)
     = butlast (split_nl (buffer st @ n)) @ split_nl (last (split_nl (buffer st @ n)) @ concat ns)"
    using split_nl_append[of "buffer st @ n" "concat ns"] by simp
  ultimately show ?case
    by (simp add: step processNewLines_append butlast_append split_nl_nonempty)
qed





subsection \<open>Runs on concrete stores\<close>

lemma line_P: "JSON_stringify entry_P =
  CHR ''{'' # CHR 0x22 # ''location'' @ CHR 0x22 # CHR '':'' # CHR 0x22 # ''a.js:f'' @ CHR 0x22 # CHR '','' #
  CHR 0x22 # ''hypothesisId'' @ CHR 0x22 # CHR '':'' # CHR 0x22 # ''A'' @ CHR 0x22 # CHR '','' #
  CHR 0x22 # ''message'' @ CHR 0x22 # CHR '':'' # CHR 0x22 # ''ok'' @ CHR 0x22 # CHR '','' #
  CHR 0x22 # ''timestamp'' @ CHR 0x22 # CHR '':'' # ''1000}''"
  by (simp add: entry_P_def quote_def escape_char_def show_int_1000)

lemma line_Q: "JSON_stringify entry_B_stamped =
  CHR ''{'' # CHR 0x22 # ''location'' @ CHR 0x22 # CHR '':'' # CHR 0x22 # ''a.js:f'' @ CHR 0x22 # CHR '','' #
  CHR 0x22 # ''hypothesisId'' @ CHR 0x22 # CHR '':'' # CHR 0x22 # ''B'' @ CHR 0x22 # CHR '','' #
  CHR 0x22 # ''message'' @ CHR 0x22 # CHR '':'' # CHR 0x22 # ''ok'' @ CHR 0x22 # CHR '','' #
  CHR 0x22 # ''timestamp'' @ CHR 0x22 # CHR '':'' # ''1000}''"
  by (simp add: entry_B_stamped_def quote_def escape_char_def show_int_1000)

lemma line_R: "JSON_stringify entry_R =
  CHR ''{'' # CHR 0x22 # ''location'' @ CHR 0x22 # CHR '':'' # CHR 0x22 # ''a.js:f'' @ CHR 0x22 # CHR '','' #
  CHR 0x22 # ''hypothesisId'' @ CHR 0x22 # CHR '':'' # CHR 0x22 # ''C'' @ CHR 0x22 # CHR '','' #
  CHR 0x22 # ''message'' @ CHR 0x22 # CHR '':'' # CHR 0x22 # ''ok'' @ CHR 0x22 # CHR '','' #
  CHR 0x22 # ''timestamp'' @ CHR 0x22 # CHR '':'' # ''1000}''"
  by (simp add: entry_R_def quote_def escape_char_def show_int_1000)

lemma line_accent: "JSON_stringify entry_accent =
  CHR ''{'' # CHR 0x22 # ''location'' @ CHR 0x22 # CHR '':'' # CHR 0x22 # ''a.js:f'' @ CHR 0x22 # CHR '','' #
  CHR 0x22 # ''hypothesisId'' @ CHR 0x22 # CHR '':'' # CHR 0x22 # ''A'' @ CHR 0x22 # CHR '','' #
  CHR 0x22 # ''message'' @ CHR 0x22 # CHR '':'' # CHR 0x22 # CHR 0xE9 # CHR 0x22 # CHR '','' #
  CHR 0x22 # ''timestamp'' @ CHR 0x22 # CHR '':'' # ''1000}''"
  by (simp add: entry_accent_def quote_def escape_char_def show_int_1000)

lemma known_PQR:
  "parse_known [entry_P, entry_B_stamped, entry_R] (JSON_stringify entry_P) = Some entry_P"
  "parse_known [entry_P, entry_B_stamped, entry_R] (JSON_stringify entry_B_stamped)
     = Some entry_B_stamped"
  "parse_known [entry_P, entry_B_stamped, entry_R] (JSON_stringify entry_R) = Some entry_R"
  by (simp_all add: parse_known_def line_P line_Q line_R)

lemma printable_PQR:
  "printable entry_P" "printable entry_B_stamped"
  "printable entry_R" "printable entry_accent"
  by (simp_all add: printable_def validateEntry_def entry_P_def entry_B_stamped_def entry_R_def
      entry_accent_def)

lemma single_byte_PQR:
  "single_byte (line_of entry_P)" "single_byte (line_of entry_B_stamped)"
  "single_byte (line_of entry_R)"
  by (simp_all add: single_byte_def line_of_def line_P line_Q line_R)






lemma tail_init_empty: "tail_init (observe (Some [])) = reset"
  by (simp add: tail_init_def observe_def reset_def byteLength_def)



subsection \<open>Characters of more than one byte\<close>

lemma readNewContent_read:
  assumes "stat_size ob = Some n" and "file_content ob = Some c" and "lastSize st < n"
  shows "readNewContent parse f st ob
     = (\<lparr>lastSize = n, buffer = last (split_nl (buffer st @ drop (lastSize st) c))\<rparr>,
        processNewLines parse f (butlast (split_nl (buffer st @ drop (lastSize st) c))))"
  using assms by (simp add: readNewContent_def Let_def)

lemma byteLength_append: "byteLength (a @ b) = byteLength a + byteLength b"
  by (simp add: byteLength_def)

lemma byteLength_accent: "byteLength (line_of entry_accent) = length (line_of entry_accent) + 1"
  by (simp add: line_of_def line_accent byteLength_def)

lemma known_accent:
  "parse_known [entry_accent, entry_P] (JSON_stringify entry_accent) = Some entry_accent"
  "parse_known [entry_accent, entry_P] (JSON_stringify entry_P) = Some entry_P"
  "parse_known [entry_accent, entry_P] (tl (JSON_stringify entry_P)) = None"
  by (simp_all add: parse_known_def line_P line_accent)

lemma readNewContent_accent:
  "readNewContent (parse_known [entry_accent, entry_P]) None reset
       (observe (Some (line_of entry_accent)))
     = (\<lparr>lastSize = Suc (length (line_of entry_accent)), buffer = []\<rparr>,
        [Printed entry_accent])"
proof -
  have "readNewContent (parse_known [entry_accent, entry_P]) None reset
       (observe (Some (line_of entry_accent)))
     = (\<lparr>lastSize = Suc (length (line_of entry_accent)),
         buffer = last (split_nl (buffer reset @ drop (lastSize reset) (line_of entry_accent)))\<rparr>,
        processNewLines (parse_known [entry_accent, entry_P]) None
          (butlast (split_nl (buffer reset @ drop (lastSize reset) (line_of entry_accent)))))"
    by (rule readNewContent_read) (simp_all add: observe_def byteLength_accent reset_def)
  moreover have "split_nl (line_of entry_accent) = [JSON_stringify entry_accent, []]"
    unfolding line_of_def by (rule split_nl_line) (rule JSON_stringify_no_nl)
  moreover have "processNewLines (parse_known [entry_accent, entry_P]) None
      (map JSON_stringify [entry_accent]) = map Printed [entry_accent]"
    by (rule processNewLines_entries)
       (simp add: printable_PQR known_accent del: JSON_stringify.simps)
  ultimately show ?thesis by (simp add: reset_def del: JSON_stringify.simps)
qed

lemma readNewContent_after_accent:
  "readNewContent (parse_known [entry_accent, entry_P]) None
       \<lparr>lastSize = Suc (length (line_of entry_accent)), buffer = []\<rparr>
       (observe (Some (line_of entry_accent @ line_of entry_P)))
     = (\<lparr>lastSize = Suc (length (line_of entry_accent @ line_of entry_P)), buffer = []\<rparr>,
        [ParseError (tl (JSON_stringify entry_P))])"
proof -
  let ?st = "\<lparr>lastSize = Suc (length (line_of entry_accent)), buffer = []\<rparr>"
  let ?c = "line_of entry_accent @ line_of entry_P"
  have "readNewContent (parse_known [entry_accent, entry_P]) None ?st (observe (Some ?c))
     = (\<lparr>lastSize = Suc (length ?c),
         buffer = last (split_nl (buffer ?st @ drop (lastSize ?st) ?c))\<rparr>,
        processNewLines (parse_known [entry_accent, entry_P]) None
          (butlast (split_nl (buffer ?st @ drop (lastSize ?st) ?c))))"
    by (rule readNewContent_read)
       (simp_all add: observe_def byteLength_append byteLength_accent
          byteLength_single_byte[OF single_byte_PQR(1)], simp add: line_of_def)
  moreover have "drop (lastSize ?st) ?c = tl (JSON_stringify entry_P) @ [CHR 0x0A]"
    by (simp add: line_of_def line_P)
  moreover have "split_nl (tl (JSON_stringify entry_P) @ [CHR 0x0A])
      = [tl (JSON_stringify entry_P), []]"
    by (rule split_nl_line) (simp add: line_P)
  moreover have "trim (tl (JSON_stringify entry_P)) \<noteq> []"
    by (rule trim_nonempty) (simp_all add: line_P is_space_def)
  ultimately show ?thesis by (simp add: known_accent del: JSON_stringify.simps)
qed

text \<open>
  Claim C6 at an input where the code departs from it.  The tailer watches an
  empty store; an entry whose message holds U+00E9 is appended and shown.  The
  cursor is then the size of the file in bytes, one more than the length of its
  text, and \<^verbatim>\<open>fileContent.slice(lastSize)\<close> cuts the first character off the next
  line: the second entry is not shown, its line comes out as a parse error.
\<close>

theorem accent_shifts_cursor:
  "tail_run (parse_known [entry_accent, entry_P]) None (tail_init (observe (Some [])))
     [observe (Some (line_of entry_accent)),
      observe (Some (line_of entry_accent @ line_of entry_P))]
   = (\<lparr>lastSize = Suc (length (line_of entry_accent @ line_of entry_P)), buffer = []\<rparr>,
      [Printed entry_accent, ParseError (tl (JSON_stringify entry_P))])"
  by (simp add: tail_init_empty readNewContent_accent readNewContent_after_accent
      del: JSON_stringify.simps)


subsection \<open>Appends without truncation\<close>

text \<open>
  What does hold for appends: when the cursor is at the end of the store, the
  carry-over buffer is empty, all that is appended is made of single-byte
  characters and the entries are printable, the tailer emits the appended
  entries, each once and in order, however the appends fall between the runs of
  \<^verbatim>\<open>readNewContent\<close>, as long as every run finds the store in one state.
\<close>

lemma tail_emits_appended_entries:
  assumes "lastSize st = length c" and "buffer st = []"
    and "concat ns = concat (map line_of es)"
    and "single_byte (c @ concat ns)"
    and "\<forall>e\<in>set es. printable e \<and> parse (JSON_stringify e) = Some e"
  shows "tail_run parse None st (map (\<lambda>s. observe (Some s)) (snapshots c ns))
     = (\<lparr>lastSize = length (c @ concat ns), buffer = []\<rparr>, map Printed es)"
proof -
  have "tail_run parse None st (map (\<lambda>s. observe (Some s)) (snapshots c ns))
     = (\<lparr>lastSize = length (c @ concat ns),
         buffer = last (split_nl (buffer st @ concat ns))\<rparr>,
        processNewLines parse None (butlast (split_nl (buffer st @ concat ns))))"
    by (rule tail_run_grow) (use assms in simp_all)
  then show ?thesis
    by (simp add: assms(2,3) split_nl_entries processNewLines_entries[OF assms(5)])
qed

subsection \<open>An append between the two file system calls\<close>

text \<open>
  \<^verbatim>\<open>readNewContent\<close> takes the size of the file first and its content afterwards.
  When the line of \<open>entry_R\<close> is appended between the two calls of one run, the run
  shows it and leaves the cursor before it, and the next run shows it again.
\<close>

lemma race_first_run:
  "readNewContent (parse_known [entry_P, entry_B_stamped, entry_R]) None reset
     \<lparr>stat_size = Some (byteLength (line_of entry_P)),
      file_content = Some (line_of entry_P @ line_of entry_R), file_exists = True\<rparr>
   = (\<lparr>lastSize = length (line_of entry_P), buffer = []\<rparr>,
      [Printed entry_P, Printed entry_R])"
proof -
  let ?parse = "parse_known [entry_P, entry_B_stamped, entry_R]"
  let ?ob = "\<lparr>stat_size = Some (byteLength (line_of entry_P)),
       file_content = Some (line_of entry_P @ line_of entry_R), file_exists = True\<rparr>"
  have pr: "processNewLines ?parse None (map JSON_stringify [entry_P, entry_R])
             = map Printed [entry_P, entry_R]"
    by (rule processNewLines_entries)
       (simp add: printable_PQR known_PQR del: JSON_stringify.simps)
  have sp: "split_nl (concat (map line_of [entry_P, entry_R]))
             = map JSON_stringify [entry_P, entry_R] @ [[]]"
    by (rule split_nl_entries)
  have pos: "0 < byteLength (line_of entry_P)"
    unfolding byteLength_single_byte[OF single_byte_PQR(1)] by (simp add: line_of_def)
  have "readNewContent ?parse None reset ?ob
     = (\<lparr>lastSize = byteLength (line_of entry_P),
         buffer = last (split_nl (buffer reset
                    @ drop (lastSize reset) (line_of entry_P @ line_of entry_R)))\<rparr>,
        processNewLines ?parse None
          (butlast (split_nl (buffer reset
                    @ drop (lastSize reset) (line_of entry_P @ line_of entry_R)))))"
    by (rule readNewContent_read) (simp_all add: reset_def pos)
  with pr sp show ?thesis
    by (simp add: reset_def byteLength_single_byte[OF single_byte_PQR(1)]
          del: JSON_stringify.simps)
qed

lemma race_second_run:
  "readNewContent (parse_known [entry_P, entry_B_stamped, entry_R]) None
     \<lparr>lastSize = length (line_of entry_P), buffer = []\<rparr>
     (observe (Some (line_of entry_P @ line_of entry_R)))
   = (\<lparr>lastSize = length (line_of entry_P @ line_of entry_R), buffer = []\<rparr>,
      [Printed entry_R])"
proof -
  let ?parse = "parse_known [entry_P, entry_B_stamped, entry_R]"
  let ?st = "\<lparr>lastSize = length (line_of entry_P), buffer = []\<rparr>"
  have "readNewContent ?parse None ?st (observe (Some (line_of entry_P @ line_of entry_R)))
     = (\<lparr>lastSize = length (line_of entry_P @ line_of entry_R),
         buffer = last (split_nl (buffer ?st @ line_of entry_R))\<rparr>,
        processNewLines ?parse None (butlast (split_nl (buffer ?st @ line_of entry_R))))"
    by (rule readNewContent_grow) (simp_all add: single_byte_PQR single_byte_append)
  moreover have "split_nl (line_of entry_R) = [JSON_stringify entry_R, []]"
    unfolding line_of_def by (rule split_nl_line) (rule JSON_stringify_no_nl)
  moreover have "processNewLines ?parse None (map JSON_stringify [entry_R])
      = map Printed [entry_R]"
    by (rule processNewLines_entries)
       (simp add: printable_PQR known_PQR del: JSON_stringify.simps)
  ultimately show ?thesis by (simp del: JSON_stringify.simps)
qed

lemma append_between_stat_and_read:
  "tail_run (parse_known [entry_P, entry_B_stamped, entry_R]) None
     (tail_init (observe (Some [])))
     [\<lparr>stat_size = Some (byteLength (line_of entry_P)),
       file_content = Some (line_of entry_P @ line_of entry_R), file_exists = True\<rparr>,
      observe (Some (line_of entry_P @ line_of entry_R))]
   = (\<lparr>lastSize = length (line_of entry_P @ line_of entry_R), buffer = []\<rparr>,
      [Printed entry_P, Printed entry_R, Printed entry_R])"
  by (simp add: tail_init_empty race_first_run race_second_run del: JSON_stringify.simps)

text \<open>
  The same after a truncation that the tailer notices.  Its cursor is at 500;
  the store is cleared and the line of \<open>entry_P\<close> is appended; the next run takes
  the size, the line of \<open>entry_R\<close> is appended, and the run reads the content.  Two
  entries were appended after the truncation, three are shown.
\<close>

lemma readNewContent_shrunk:
  assumes "stat_size ob = Some n" and "n < lastSize st"
  shows "readNewContent parse f st ob = readNewContent parse f reset ob"
  using assms by (simp add: readNewContent_def reset_def Let_def)

lemma truncation_then_append_between_stat_and_read:
  "tail_run (parse_known [entry_P, entry_B_stamped, entry_R]) None
     \<lparr>lastSize = 500, buffer = []\<rparr>
     [\<lparr>stat_size = Some (byteLength (line_of entry_P)),
       file_content = Some (line_of entry_P @ line_of entry_R), file_exists = True\<rparr>,
      observe (Some (line_of entry_P @ line_of entry_R))]
   = (\<lparr>lastSize = length (line_of entry_P @ line_of entry_R), buffer = []\<rparr>,
      [Printed entry_P, Printed entry_R, Printed entry_R])"
proof -
  let ?parse = "parse_known [entry_P, entry_B_stamped, entry_R]"
  let ?ob = "\<lparr>stat_size = Some (byteLength (line_of entry_P)),
       file_content = Some (line_of entry_P @ line_of entry_R), file_exists = True\<rparr>"
  have small: "byteLength (line_of entry_P) < lastSize \<lparr>lastSize = 500, buffer = []\<rparr>"
    by (simp add: byteLength_single_byte[OF single_byte_PQR(1)]) (simp add: line_of_def line_P)
  have "readNewContent ?parse None \<lparr>lastSize = 500, buffer = []\<rparr> ?ob
      = readNewContent ?parse None reset ?ob"
    by (rule readNewContent_shrunk[OF _ small]) simp
  then show ?thesis
    by (simp add: race_first_run race_second_run del: JSON_stringify.simps)
qed

subsection \<open>Entries that are not printed\<close>

text \<open>
  An entry that the collector accepts is not always printable.  When its level
  is an object with a property \<^verbatim>\<open>toString\<close> of its own, the read \<^verbatim>\<open>levelColors[level]\<close>
  throws, and the tailer shows the line as a parse error.
\<close>

lemma level_object_is_parse_error:
  "validateEntry entry_level_object = None
   \<and> printEntry entry_level_object = ([], Some TypeError)
   \<and> processNewLines (parse_known [entry_level_object]) None
         [JSON_stringify entry_level_object]
       = [ParseError (JSON_stringify entry_level_object)]"
proof -
  have v: "validateEntry entry_level_object = None"
    by (simp add: entry_level_object_def validateEntry_def)
  have c: "getHypothesisColor (Some (JStr ''A'')) = Inr Cyan"
    by (simp add: getHypothesisColor_def hypothesisColors_def)
  have p: "printEntry entry_level_object = ([], Some TypeError)"
    by (simp add: printEntry_def entry_level_object_def c level_of_def)
  have t: "trim (JSON_stringify entry_level_object) \<noteq> []"
    unfolding entry_level_object_def by (rule trim_JSON_stringify_JObj)
  have k: "parse_known [entry_level_object] (JSON_stringify entry_level_object)
             = Some entry_level_object"
    by (simp add: parse_known_def)
  have n: "entry_level_object \<noteq> JNull" by (simp add: entry_level_object_def)
  have "processNewLines (parse_known [entry_level_object]) None
         [JSON_stringify entry_level_object]
       = [ParseError (JSON_stringify entry_level_object)]"
    by (simp add: t k n p skipped_None del: JSON_stringify.simps)
  with v p show ?thesis by blast
qed

section \<open>From the collector to the analyzer\<close>

lemma split_nl_snoc_nl: "split_nl (c @ [CHR 0x0A]) = split_nl c @ [[]]"
proof -
  have "split_nl (last (split_nl c) @ [CHR 0x0A]) = [last (split_nl c), []]"
    by (rule split_nl_line) (rule last_split_nl_no_nl)
  with split_nl_append[of c "[CHR 0x0A]"] split_nl_nonempty[of c] show ?thesis
    by simp
qed

lemma trim_line:
  assumes "c \<noteq> []" and "\<not> is_space (hd c)" and "\<not> is_space (last c)"
  shows "trim (c @ [CHR 0x0A]) = c"
proof -
  from assms(1,2) have "dropWhile is_space (c @ [CHR 0x0A]) = c @ [CHR 0x0A]"
    by (cases c) auto
  moreover from assms(1,3) have "dropWhile is_space (rev c) = rev c"
    by (cases c rule: rev_cases) auto
  ultimately show ?thesis by (simp add: trim_def is_space_def)
qed

lemma JSON_stringify_JObj_ends: 
  "hd (JSON_stringify (JObj kvs)) = CHR ''{''" "last (JSON_stringify (JObj kvs)) = CHR ''}''"
  by simp_all

lemma map_filter_parse:
  assumes "\<forall>e\<in>set es. parse (JSON_stringify e) = Some (g e)"
  shows "List.map_filter parse (map JSON_stringify es) = map g es"
  using assms by (induction es) (simp_all add: List.map_filter_simps del: JSON_stringify.simps)

text \<open>
  A store that holds the lines of the entries \<open>es\<close>, all of them objects, is read
  by \<^verbatim>\<open>parseLogFile\<close> as what \<^verbatim>\<open>JSON.parse\<close> makes of each line.
\<close>

lemma parseLogFile_lines:
  assumes "\<forall>e\<in>set es. (\<exists>kvs. e = JObj kvs) \<and> parse (JSON_stringify e) = Some (g e)"
  shows "parseLogFile parse (Some (concat (map line_of es))) = map g es"
proof (cases es rule: rev_cases)
  case Nil
  then show ?thesis by (simp add: parseLogFile_def trim_def List.map_filter_simps)
next
  case (snoc es' e)
  define c where "c = concat (map line_of es') @ JSON_stringify e"
  have content: "concat (map line_of es) = c @ [CHR 0x0A]"
    by (simp add: snoc c_def line_of_def)
  from assms snoc obtain kvs where e: "e = JObj kvs" by auto
  have ne: "c \<noteq> []" by (simp add: c_def e)
  have lst: "last c = CHR ''}''" by (simp add: c_def e)
  have hd: "hd c = CHR ''{''"
  proof (cases es')
    case Nil
    then show ?thesis by (simp add: c_def e)
  next
    case (Cons e1 es1)
    with assms snoc obtain kvs1 where "e1 = JObj kvs1" by auto
    with Cons show ?thesis by (simp add: c_def line_of_def)
  qed
  have tr: "trim (concat (map line_of es)) = c"
    unfolding content by (rule trim_line[OF ne]) (simp_all add: hd lst is_space_def)
  have "split_nl c @ [[]] = map JSON_stringify es @ [[]]"
    using split_nl_entries[of es] split_nl_snoc_nl[of c] by (simp add: content)
  then have sp: "split_nl c = map JSON_stringify es" by simp
  have nb: "filter (\<lambda>l. trim l \<noteq> []) (map JSON_stringify es) = map JSON_stringify es"
  proof (rule filter_True)
    show "\<forall>l\<in>set (map JSON_stringify es). trim l \<noteq> []"
      using assms trim_JSON_stringify_JObj by auto
  qed
  from assms have "List.map_filter parse (map JSON_stringify es) = map g es"
    by (intro map_filter_parse) simp
  then show ?thesis by (simp add: parseLogFile_def tr sp nb)
qed

lemma parseLogFile_entries:
  assumes "\<forall>e\<in>set es. (\<exists>kvs. e = JObj kvs) \<and> parse (JSON_stringify e) = Some e"
  shows "parseLogFile parse (Some (concat (map line_of es))) = es"
  using parseLogFile_lines[of es parse "\<lambda>e. e"] assms by simp

lemma parseLogFile_read_json:
  assumes "\<forall>e\<in>set es. \<exists>kvs. e = JObj kvs"
  shows "parseLogFile read_json (Some (concat (map line_of es))) = map nullify es"
  by (rule parseLogFile_lines) (use assms in \<open>simp add: read_json_stringify\<close>)

text \<open>
  After an accepted \<^verbatim>\<open>POST /ingest\<close> on a store that holds the lines of objects, a
  full read yields the entries it held, followed by the entry as \<^verbatim>\<open>writeLogEntry\<close>
  stamped it: each as written, its numbers that are not finite having become
  \<^verbatim>\<open>null\<close>.
\<close>

lemma ingest_then_read:
  assumes "parseBody (JSON_parse env) b = Inr entry" and "validateEntry entry = None"
    and "\<not> append_fails env" and "stamp (Date_now env) entry = Inr entry'"
    and "\<forall>e\<in>set es. \<exists>kvs. e = JObj kvs"
  shows "parseLogFile read_json (snd (server env (ingest b) (Some (concat (map line_of es)))))
           = map nullify es @ [nullify entry']"
proof -
  from assms(2) obtain kvs where "entry = JObj kvs"
    and "stamp (Date_now env) entry =
          Inr (if truthy_prop (map_of kvs ''timestamp'') then JObj kvs
               else JObj (AList.update ''timestamp'' (JNum (Date_now env)) kvs))"
    by (rule stamp_valid)
  with assms(4) have obj: "\<exists>kvs'. entry' = JObj kvs'" by (auto split: if_splits)
  have "snd (server env (ingest b) (Some (concat (map line_of es))))
          = Some (concat (map line_of (es @ [entry'])))"
    by (simp add: server_ingest_written[OF assms(1-4)] store_text_def line_of_def)
  moreover have "parseLogFile read_json (Some (concat (map line_of (es @ [entry']))))
      = map nullify (es @ [entry'])"
    by (rule parseLogFile_read_json) (use assms(5) obj in auto)
  ultimately show ?thesis by simp
qed

end
